theory Spec2Isabelle
  imports Main
begin

unbundle bit_operations_syntax

section \<open>JavaScript values used by bn.js (the BigInt backend)\<close>

text \<open>
  The big-number engine keeps its value in a native \<open>BigInt\<close>, modelled as \<open>int\<close>.
  The operators \<open>/\<close> and \<open>%\<close> on \<open>BigInt\<close> truncate towards zero (the remainder has
  the sign of the dividend); \<open>&\<close>, \<open>|\<close>, \<open>^\<close> work on the infinite two's complement
  form, as \<open>AND\<close>, \<open>OR\<close>, \<open>XOR\<close> on \<open>int\<close> do; \<open>>>\<close> is the arithmetic shift
  and a negative shift count shifts the other way.
\<close>

definition bigint_div :: "int \<Rightarrow> int \<Rightarrow> int" where
  "bigint_div x y =
     (if (x < 0) = (y < 0) then \<bar>x\<bar> div \<bar>y\<bar> else - (\<bar>x\<bar> div \<bar>y\<bar>))"

definition bigint_rem :: "int \<Rightarrow> int \<Rightarrow> int" where
  "bigint_rem x y = (if x < 0 then - (\<bar>x\<bar> mod \<bar>y\<bar>) else \<bar>x\<bar> mod \<bar>y\<bar>)"

definition bigint_shl :: "int \<Rightarrow> int \<Rightarrow> int" where
  "bigint_shl x k = (if 0 \<le> k then push_bit (nat k) x else drop_bit (nat (- k)) x)"

definition bigint_shr :: "int \<Rightarrow> int \<Rightarrow> int" where
  "bigint_shr x k = (if 0 \<le> k then drop_bit (nat k) x else push_bit (nat (- k)) x)"

text \<open>Exceptions are values: the class of the error and its message.\<close>

datatype js_error = Error string | TypeError string | RangeError string

definition quoted :: "string \<Rightarrow> string" where
  "quoted name = CHR 0x22 # name @ [CHR 0x22]"

text \<open>The messages of the helpers \<open>assert\<close>, \<open>enforce\<close>, \<open>range\<close>, \<open>red\<close>, \<open>nonred\<close>
  and \<open>nonzero\<close>, each thrown when the checked value is falsy.\<close>

definition assert_err :: js_error where
  "assert_err = Error ''Assertion failed.''"

definition enforce_err :: "string \<Rightarrow> string \<Rightarrow> js_error" where
  "enforce_err name ty = TypeError (quoted name @ '' must be a(n) '' @ ty @ ''.'')"

definition range_err :: "string \<Rightarrow> js_error" where
  "range_err name = RangeError (quoted name @ '' only works with positive numbers.'')"

definition red_err :: "string \<Rightarrow> js_error" where
  "red_err name = TypeError (quoted name @ '' only works with red numbers.'')"

definition nonred_err :: "string \<Rightarrow> js_error" where
  "nonred_err name = TypeError (quoted name @ '' only works with normal numbers.'')"

definition nonzero_err :: js_error where
  "nonzero_err = RangeError ''Cannot divide by zero.''"

section \<open>Data model\<close>

text \<open>
  A reduction context (\<open>class Red\<close>) holds its modulus \<open>m\<close>. Contexts are objects and the
  code compares them by reference (\<open>a.red === b.red\<close>), so every instance carries its
  identity \<open>red_id\<close>: two instances are the same object exactly when their identities are
  equal, whatever their moduli. A big number (\<open>class BN\<close>) holds its value \<open>n\<close> and the
  context it is tagged with, \<open>null\<close> when it is a plain integer.
\<close>

record Red =
  red_id :: nat
  red_m :: int

record BN =
  bn_n :: int
  bn_red :: "Red option"

text \<open>\<open>clone\<close> makes a new object with the same value and the same tag.\<close>

definition clone :: "BN \<Rightarrow> BN" where
  "clone this = \<lparr>bn_n = bn_n this, bn_red = bn_red this\<rparr>"

section \<open>Integer core\<close>

definition abs_bn :: "int \<Rightarrow> int" where
  "abs_bn x = (if x < 0 then - x else x)"

subsection \<open>Truncating and Euclidean division\<close>

definition quorem :: "int \<Rightarrow> int \<Rightarrow> js_error + int \<times> int" where
  "quorem x y =
     (if y = 0 then Inl assert_err
      else let q = bigint_div x y; r = x - q * y in Inr (q, r))"

definition divmod :: "int \<Rightarrow> int \<Rightarrow> js_error + int \<times> int" where
  "divmod x y =
     (if y = 0 then Inl assert_err
      else let q = bigint_div x y; r = x - q * y in
        if r < 0 then (if y < 0 then Inr (q + 1, r - y) else Inr (q - 1, r + y))
        else Inr (q, r))"

definition div_bn :: "int \<Rightarrow> int \<Rightarrow> js_error + int" where
  "div_bn x y =
     (if y = 0 then Inl assert_err
      else let q = bigint_div x y in
        if 0 \<le> x then Inr q
        else let r = x - q * y in
          if r < 0 then (if y < 0 then Inr (q + 1) else Inr (q - 1))
          else Inr q)"

definition mod_bn :: "int \<Rightarrow> int \<Rightarrow> js_error + int" where
  "mod_bn x y =
     (if y = 0 then Inl assert_err
      else let r = bigint_rem x y in
        if r < 0 then (if y < 0 then Inr (r - y) else Inr (r + y))
        else Inr r)"

subsection \<open>Facts about the BigInt operators\<close>

lemma bigint_div_nonneg: "0 \<le> x \<Longrightarrow> 0 < y \<Longrightarrow> bigint_div x y = x div y"
  by (simp add: bigint_div_def)

lemma bigint_rem_nonneg: "0 \<le> x \<Longrightarrow> 0 < y \<Longrightarrow> bigint_rem x y = x mod y"
  by (simp add: bigint_rem_def)

lemma bigint_div_rem: "bigint_div x y * y + bigint_rem x y = x"
proof -
  define a b where "a = \<bar>x\<bar>" and "b = \<bar>y\<bar>"
  have e: "a div b * b + a mod b = a"
    by simp
  have d: "bigint_div x y = (if (x < 0) = (y < 0) then a div b else - (a div b))"
    and r: "bigint_rem x y = (if x < 0 then - (a mod b) else a mod b)"
    by (simp_all add: bigint_div_def bigint_rem_def a_def b_def)
  have x: "x = (if x < 0 then - a else a)" and y: "y = (if y < 0 then - b else b)"
    by (simp_all add: a_def b_def)
  have "bigint_div x y * y + bigint_rem x y
      = (if x < 0 then - (a div b * b + a mod b) else a div b * b + a mod b)"
    unfolding d r by (subst (2) y) (simp add: algebra_simps)
  also have "\<dots> = (if x < 0 then - a else a)"
    by (simp only: e)
  also have "\<dots> = x"
    using x by simp
  finally show ?thesis .
qed

lemma bigint_rem_alt: "x - bigint_div x y * y = bigint_rem x y"
  using bigint_div_rem [of x y] by simp

lemma bigint_rem_abs_less: "y \<noteq> 0 \<Longrightarrow> \<bar>bigint_rem x y\<bar> < \<bar>y\<bar>"
  by (simp add: bigint_rem_def)


lemma bigint_rem_neg_eq:
  assumes "x < 0" "0 < y"
  shows "bigint_rem x y = (if x mod y = 0 then 0 else x mod y - y)"
proof -
  have ax: "\<bar>x\<bar> = - x" and ay: "\<bar>y\<bar> = y"
    using assms by simp_all
  have "(- x) mod y = (if x mod y = 0 then 0 else y - x mod y)"
    using assms by (simp add: zmod_zminus1_eq_if)
  then show ?thesis
    using assms by (simp add: bigint_rem_def ax ay)
qed

lemma mod_bn_pos: "0 < y \<Longrightarrow> mod_bn x y = Inr (x mod y)"
proof (cases "0 \<le> x")
  case True
  assume y: "0 < y"
  with True show ?thesis
    by (simp add: mod_bn_def bigint_rem_nonneg Let_def linorder_not_less)
next
  case False
  assume y: "0 < y"
  from False have x: "x < 0" by simp
  have r: "bigint_rem x y = (if x mod y = 0 then 0 else x mod y - y)"
    by (rule bigint_rem_neg_eq [OF x y])
  from y r show ?thesis
    by (simp add: mod_bn_def Let_def linorder_not_less linorder_not_le)
qed

lemma div_bn_nonneg: "0 \<le> x \<Longrightarrow> 0 < y \<Longrightarrow> div_bn x y = Inr (x div y)"
  by (simp add: div_bn_def Let_def bigint_div_nonneg)

text \<open>
  C2 (Euclidean division law). For all non-negative integers \<open>a\<close> and \<open>b\<close> with \<open>b > 0\<close>,
  the functions \<open>div\<close> and \<open>mod\<close> return (no assertion fails) a quotient and a remainder
  with \<open>a = (a div b) * b + (a mod b)\<close> and \<open>0 \<le> a mod b < b\<close>.
\<close>

theorem euclidean_division_law:
  assumes "0 \<le> a" and "0 < b"
  shows "\<exists>q r. div_bn a b = Inr q \<and> mod_bn a b = Inr r \<and> a = q * b + r \<and> 0 \<le> r \<and> r < b"
  using assms by (simp add: div_bn_nonneg mod_bn_pos)

theorem euclidean_division_law_witness:
  "\<exists>q r. div_bn 17 5 = Inr q \<and> mod_bn 17 5 = Inr r \<and> 17 = q * 5 + r \<and> 0 \<le> r \<and> r < 5"
  by (rule euclidean_division_law) simp_all

subsection \<open>Extended Euclidean algorithm\<close>

text \<open>The \<open>while (r !== 0n)\<close> loop of \<open>egcd\<close>; each round replaces \<open>(or, r)\<close> by
  \<open>(r, or - q * r)\<close> and the two coefficient pairs alike.\<close>

function egcd_loop :: "int \<Rightarrow> int \<Rightarrow> int \<Rightarrow> int \<Rightarrow> int \<Rightarrow> int \<Rightarrow> int \<times> int \<times> int" where
  "egcd_loop s os t ot r or0 =
     (if r \<noteq> 0 then
        (let q = bigint_div or0 r
         in egcd_loop (os - q * s) s (ot - q * t) t (or0 - q * r) r)
      else (os, ot, or0))"
  by pat_completeness auto
termination
  by (relation "measure (\<lambda>(s, os, t, ot, r, or0). nat \<bar>r\<bar>)")
     (auto simp: bigint_rem_alt bigint_rem_abs_less)

declare egcd_loop.simps [simp del]

definition egcd :: "int \<Rightarrow> int \<Rightarrow> int \<times> int \<times> int" where
  "egcd x y =
     (let (os, ot, or0) = egcd_loop 0 1 1 0 (abs_bn y) (abs_bn x);
          (os, ot, or0) = (if or0 < 0 then (- os, - ot, - or0) else (os, ot, or0));
          os = (if x < 0 then - os else os);
          ot = (if y < 0 then - ot else ot)
      in (os, ot, or0))"

lemma egcd_loop_correct:
  "0 \<le> r \<Longrightarrow> 0 \<le> or0 \<Longrightarrow> or0 = os * X + ot * Y \<Longrightarrow> r = s * X + t * Y \<Longrightarrow>
   egcd_loop s os t ot r or0 = (a, b, g) \<Longrightarrow> g = a * X + b * Y \<and> g = gcd or0 r"
proof (induction s os t ot r or0 rule: egcd_loop.induct)
  case (1 s os t ot r or0)
  show ?case
  proof (cases "r = 0")
    case True
    with "1.prems" show ?thesis
      by (auto simp: egcd_loop.simps)
  next
    case False
    with "1.prems" have rpos: "0 < r" by simp
    define q where "q = bigint_div or0 r"
    have q: "q = or0 div r"
      using rpos "1.prems" by (simp add: q_def bigint_div_nonneg)
    have r': "or0 - q * r = or0 mod r"
      by (simp add: q minus_div_mult_eq_mod)
    have step: "egcd_loop (os - q * s) s (ot - q * t) t (or0 - q * r) r = (a, b, g)"
      using "1.prems"(5) False by (subst (asm) egcd_loop.simps) (simp add: q_def Let_def)
    have "g = a * X + b * Y \<and> g = gcd r (or0 - q * r)"
    proof (rule "1.IH" [OF False q_def _ _ _ _ step])
      show "0 \<le> or0 - q * r" using rpos by (simp add: r')
      show "0 \<le> r" using rpos by simp
      show "r = s * X + t * Y" by (rule "1.prems"(4))
      show "or0 - q * r = (os - q * s) * X + (ot - q * t) * Y"
        using "1.prems"(3,4) by (simp add: algebra_simps)
    qed
    moreover have "gcd r (or0 - q * r) = gcd or0 r"
      by (simp add: r' gcd_red_int [of or0 r] gcd.commute)
    ultimately show ?thesis by simp
  qed
qed

text \<open>
  C6 (Bezout identity). For all integers \<open>a\<close> and \<open>b\<close>, zero and negative values included,
  \<open>egcd a b\<close> returns \<open>(x, y, g)\<close> with \<open>a * x + b * y = g\<close>, where \<open>g\<close> is the non-negative
  greatest common divisor \<open>gcd \<bar>a\<bar> \<bar>b\<bar>\<close>.
\<close>

theorem egcd_bezout:
  "\<exists>x y g. egcd a b = (x, y, g) \<and> a * x + b * y = g \<and> g = gcd \<bar>a\<bar> \<bar>b\<bar> \<and> 0 \<le> g"
proof -
  obtain u v g where l: "egcd_loop 0 1 1 0 \<bar>b\<bar> \<bar>a\<bar> = (u, v, g)"
    by (cases "egcd_loop 0 1 1 0 \<bar>b\<bar> \<bar>a\<bar>") auto
  have "g = u * \<bar>a\<bar> + v * \<bar>b\<bar> \<and> g = gcd \<bar>a\<bar> \<bar>b\<bar>"
    by (rule egcd_loop_correct [OF _ _ _ _ l]) simp_all
  then have g: "g = u * \<bar>a\<bar> + v * \<bar>b\<bar>" and gg: "g = gcd \<bar>a\<bar> \<bar>b\<bar>"
    by simp_all
  have gpos: "\<not> g < 0"
    by (simp add: gg linorder_not_less)
  have e: "egcd a b = (if a < 0 then - u else u, if b < 0 then - v else v, g)"
    using l gpos by (simp add: egcd_def abs_bn_def abs_if Let_def)
  have "a * (if a < 0 then - u else u) + b * (if b < 0 then - v else v) = u * \<bar>a\<bar> + v * \<bar>b\<bar>"
    by (simp add: abs_if algebra_simps)
  then have bez: "a * (if a < 0 then - u else u) + b * (if b < 0 then - v else v) = g"
    by (simp only: g)
  have nonneg: "0 \<le> g"
    by (simp add: gg)
  from e bez gg nonneg show ?thesis
    by blast
qed

theorem egcd_bezout_witness:
  "\<exists>x y g. egcd (- 12) 18 = (x, y, g) \<and> (- 12) * x + 18 * y = g \<and> g = gcd \<bar>- 12\<bar> \<bar>18\<bar> \<and> 0 \<le> g"
  by (rule egcd_bezout)

subsection \<open>Modular inverse\<close>

text \<open>The \<open>while (nr !== 0n)\<close> loop of \<open>invert\<close>; it returns the final \<open>(t, r)\<close>.\<close>

function invert_loop :: "int \<Rightarrow> int \<Rightarrow> int \<Rightarrow> int \<Rightarrow> int \<times> int" where
  "invert_loop t nt r nr =
     (if nr \<noteq> 0 then
        (let q = bigint_div r nr
         in invert_loop nt (t - q * nt) nr (r - q * nr))
      else (t, r))"
  by pat_completeness auto
termination
  by (relation "measure (\<lambda>(t, nt, r, nr). nat \<bar>nr\<bar>)")
     (auto simp: bigint_rem_alt bigint_rem_abs_less)

declare invert_loop.simps [simp del]

definition invert :: "int \<Rightarrow> int \<Rightarrow> js_error + int" where
  "invert x y =
     (if \<not> 0 < y then Inl assert_err
      else if y = 1 then Inl (RangeError ''Not invertible.'')
      else case (if x < 0 \<or> y \<le> x then mod_bn x y else Inr x) of
        Inl e \<Rightarrow> Inl e
      | Inr x1 \<Rightarrow>
          (let (t, r) = invert_loop 0 1 y x1;
               (t, r) = (if r < 0 then (- t, - r) else (t, r))
           in if r \<noteq> 1 then Inl (RangeError ''Not invertible.'')
              else Inr (if t < 0 then t + y else t)))"

lemma abs_diff_opposite:
  fixes t nt q :: int
  assumes "(0 \<le> t \<and> nt \<le> 0) \<or> (t \<le> 0 \<and> 0 \<le> nt)" and "0 \<le> q"
  shows "\<bar>t - q * nt\<bar> = \<bar>t\<bar> + q * \<bar>nt\<bar>"
proof -
  from assms consider (a) "0 \<le> t" "nt \<le> 0" | (b) "t \<le> 0" "0 \<le> nt" by blast
  then show ?thesis
  proof cases
    case a
    then have "q * nt \<le> 0" using assms(2) by (simp add: mult_nonneg_nonpos)
    with a show ?thesis by simp
  next
    case b
    then have "0 \<le> q * nt" using assms(2) by simp
    with b show ?thesis by simp
  qed
qed

lemma invert_loop_inv:
  "0 \<le> nr \<Longrightarrow> nr < r \<Longrightarrow> r * \<bar>nt\<bar> + nr * \<bar>t\<bar> = y \<Longrightarrow>
   (0 \<le> t \<and> nt \<le> 0) \<or> (t \<le> 0 \<and> 0 \<le> nt) \<Longrightarrow> \<bar>t\<bar> * r < y \<Longrightarrow>
   y dvd t * x - r \<Longrightarrow> y dvd nt * x - nr \<Longrightarrow>
   invert_loop t nt r nr = (t', r') \<Longrightarrow>
   r' = gcd r nr \<and> y dvd t' * x - r' \<and> \<bar>t'\<bar> * r' < y"
proof (induction t nt r nr rule: invert_loop.induct)
  case (1 t nt r nr)
  show ?case
  proof (cases "nr = 0")
    case True
    with "1.prems" show ?thesis
      by (auto simp: invert_loop.simps)
  next
    case False
    with "1.prems" have nrpos: "0 < nr" by simp
    then have rpos: "0 \<le> r" using "1.prems"(2) by simp
    define q where "q = bigint_div r nr"
    have q: "q = r div nr"
      using nrpos rpos by (simp add: q_def bigint_div_nonneg)
    have qpos: "0 \<le> q"
      using nrpos rpos by (simp add: q pos_imp_zdiv_nonneg_iff)
    have r': "r - q * nr = r mod nr"
      by (simp add: q minus_div_mult_eq_mod)
    have step: "invert_loop nt (t - q * nt) nr (r - q * nr) = (t', r')"
      using "1.prems"(8) False by (subst (asm) invert_loop.simps) (simp add: q_def Let_def)
    have ab: "\<bar>t - q * nt\<bar> = \<bar>t\<bar> + q * \<bar>nt\<bar>"
      by (rule abs_diff_opposite [OF "1.prems"(4) qpos])
    have "r' = gcd nr (r - q * nr) \<and> y dvd t' * x - r' \<and> \<bar>t'\<bar> * r' < y"
    proof (rule "1.IH" [OF False q_def _ _ _ _ _ _ _ step])
      show "0 \<le> r - q * nr" using nrpos by (simp add: r')
      show "r - q * nr < nr" using nrpos by (simp add: r')
      show "nr * \<bar>t - q * nt\<bar> + (r - q * nr) * \<bar>nt\<bar> = y"
        unfolding ab using "1.prems"(3) by (simp add: algebra_simps)
      show "(0 \<le> nt \<and> t - q * nt \<le> 0) \<or> (nt \<le> 0 \<and> 0 \<le> t - q * nt)"
      proof -
        from "1.prems"(4) consider (a) "0 \<le> t" "nt \<le> 0" | (b) "t \<le> 0" "0 \<le> nt" by blast
        then show ?thesis
        proof cases
          case a
          then have "q * nt \<le> 0" using qpos by (simp add: mult_nonneg_nonpos)
          with a show ?thesis by simp
        next
          case b
          then have "0 \<le> q * nt" using qpos by simp
          with b show ?thesis by simp
        qed
      qed
      show "\<bar>nt\<bar> * nr < y"
      proof (cases "nt = 0")
        case True
        have "0 \<le> \<bar>t\<bar> * r" using rpos by simp
        with "1.prems"(5) True show ?thesis by simp
      next
        case nz: False
        then have "0 < \<bar>nt\<bar>" by simp
        then have "\<bar>nt\<bar> * nr < \<bar>nt\<bar> * r"
          using "1.prems"(2) by simp
        moreover have "0 \<le> nr * \<bar>t\<bar>" using "1.prems"(1) by simp
        ultimately show ?thesis using "1.prems"(3) by (simp add: algebra_simps)
      qed
      show "y dvd nt * x - nr" by (rule "1.prems"(7))
      show "y dvd (t - q * nt) * x - (r - q * nr)"
      proof -
        have e: "(t - q * nt) * x - (r - q * nr) = (t * x - r) - q * (nt * x - nr)"
          by (simp add: algebra_simps)
        have "y dvd (t * x - r) - q * (nt * x - nr)"
          by (rule dvd_diff [OF "1.prems"(6) dvd_mult [OF "1.prems"(7)]])
        then show ?thesis
          by (simp only: e)
      qed
    qed
    moreover have "gcd nr (r - q * nr) = gcd r nr"
      unfolding r' by (rule gcd_red_int [symmetric])
    ultimately show ?thesis by auto
  qed
qed


lemma invert_spec:
  assumes y: "1 < y"
  shows "(gcd x y \<noteq> 1 \<longrightarrow> invert x y = Inl (RangeError ''Not invertible.'')) \<and>
         (gcd x y = 1 \<longrightarrow> (\<exists>t. invert x y = Inr t \<and> 0 \<le> t \<and> t < y \<and> (x * t) mod y = 1))"
proof -
  define x1 where "x1 = x mod y"
  have x1: "(if x < 0 \<or> y \<le> x then mod_bn x y else Inr x) = Inr x1"
    using y by (simp add: mod_bn_pos x1_def)
  have x1r: "0 \<le> x1" "x1 < y"
    using y by (simp_all add: x1_def)
  obtain t r where l: "invert_loop 0 1 y x1 = (t, r)"
    by (cases "invert_loop 0 1 y x1") auto
  have "r = gcd y x1 \<and> y dvd t * x1 - r \<and> \<bar>t\<bar> * r < y"
    by (rule invert_loop_inv [OF _ _ _ _ _ _ _ l]) (use y x1r in simp_all)
  then have r: "r = gcd y x1" and c: "y dvd t * x1 - r" and b: "\<bar>t\<bar> * r < y"
    by blast+
  have g: "r = gcd x y"
    unfolding r x1_def by (rule gcd_red_int [symmetric])
  have rn: "\<not> r < 0"
    by (simp add: g linorder_not_less)
  have e: "invert x y = (if r \<noteq> 1 then Inl (RangeError ''Not invertible.'')
                         else Inr (if t < 0 then t + y else t))"
    using y l rn by (simp add: invert_def x1 Let_def)
  show ?thesis
  proof (cases "gcd x y = 1")
    case False
    with e g show ?thesis by simp
  next
    case True
    with g have r1: "r = 1" by simp
    define t' where "t' = (if t < 0 then t + y else t)"
    have res: "invert x y = Inr t'"
      using e r1 by (simp add: t'_def)
    from b r1 have tb: "\<bar>t\<bar> < y" by simp
    then have range: "0 \<le> t'" "t' < y"
      by (auto simp: t'_def)
    have "y dvd t' * x1 - 1"
    proof -
      have "t' * x1 - 1 = (t * x1 - r) + (if t < 0 then y * x1 else 0)"
        by (simp add: t'_def r1 algebra_simps)
      with c show ?thesis by simp
    qed
    then have "(t' * x1) mod y = 1 mod y"
      by (simp add: mod_eq_dvd_iff)
    then have "(x * t') mod y = 1"
      using y by (simp add: x1_def mod_mult_right_eq mult.commute)
    with res range True show ?thesis by simp
  qed
qed

definition BN_iinvert :: "BN \<Rightarrow> BN \<Rightarrow> js_error + BN" where
  "BN_iinvert this num =
     (if \<not> 1 \<le> bn_n num then Inl (range_err ''iinvert'')
      else case invert (bn_n this) (bn_n num) of
        Inl e \<Rightarrow> Inl e
      | Inr v \<Rightarrow> Inr (this\<lparr>bn_n := v\<rparr>))"

definition BN_invert :: "BN \<Rightarrow> BN \<Rightarrow> js_error + BN" where
  "BN_invert this num = BN_iinvert (clone this) num"

text \<open>
  C1 (modular inverse). For every integer \<open>a\<close> and every modulus \<open>m \<ge> 1\<close>, \<open>invert a m\<close>
  raises the range error "Not invertible." if and only if \<open>m = 1\<close> or \<open>gcd a m \<noteq> 1\<close>;
  otherwise it returns a value \<open>t\<close> with \<open>0 \<le> t < m\<close> and \<open>(a * t) mod m = 1\<close>. The method
  \<open>BN.invert\<close> passes the values through after its own check \<open>m \<ge> 1\<close>.
\<close>

theorem invert_correct:
  assumes "1 \<le> m"
  shows "(invert a m = Inl (RangeError ''Not invertible.'') \<longleftrightarrow> m = 1 \<or> gcd a m \<noteq> 1) \<and>
         (m \<noteq> 1 \<and> gcd a m = 1 \<longrightarrow>
            (\<exists>t. invert a m = Inr t \<and> 0 \<le> t \<and> t < m \<and> (a * t) mod m = 1 \<and>
                 BN_invert \<lparr>bn_n = a, bn_red = None\<rparr> \<lparr>bn_n = m, bn_red = None\<rparr>
                   = Inr \<lparr>bn_n = t, bn_red = None\<rparr>))"
proof (cases "m = 1")
  case True
  then show ?thesis
    by (simp add: invert_def)
next
  case False
  with assms have m: "1 < m" by simp
  from invert_spec [OF m, of a] show ?thesis
    using m by (auto simp: BN_invert_def BN_iinvert_def clone_def)
qed

theorem invert_correct_witness:
  "invert 3 7 = Inr 5 \<and> invert 4 6 = Inl (RangeError ''Not invertible.'')"
proof -
  have g: "gcd (3::int) 7 = 1" "gcd (4::int) 6 \<noteq> 1"
    by code_simp+
  from invert_correct [of 7 3] g(1) obtain t :: int
    where t: "invert 3 7 = Inr t" "0 \<le> t" "t < 7" "(3 * t) mod 7 = 1"
    by auto
  from t(2,3) have "t \<in> {0, 1, 2, 3, 4, 5, 6}" by auto
  with t(4) have "t = 5" by auto
  moreover from invert_correct [of 6 4] g(2)
  have "invert 4 6 = Inl (RangeError ''Not invertible.'')" by simp
  ultimately show ?thesis using t(1) by simp
qed

subsection \<open>Exponentiation\<close>

definition isSMI :: "int \<Rightarrow> bool" where
  "isSMI num \<longleftrightarrow> - 0x3ffffff \<le> num \<and> num \<le> 0x3ffffff"

text \<open>
  The operator \<open>**\<close> of the engine on two \<open>BigInt\<close>s. The language puts no bound on a
  \<open>BigInt\<close>, but an engine holds only so many bits and throws a \<open>RangeError\<close> beyond them;
  \<open>max_bits\<close> is that bound, a parameter of the engine (\<open>v8_max_bits\<close> in V8). A negative
  exponent is a \<open>RangeError\<close> as well.
\<close>

definition bigint_pow :: "nat \<Rightarrow> int \<Rightarrow> int \<Rightarrow> js_error + int" where
  "bigint_pow max_bits x y =
     (if y < 0 then Inl (RangeError ''Exponent must be non-negative'')
      else if 2 ^ max_bits \<le> \<bar>x ^ nat y\<bar> then Inl (RangeError ''Maximum BigInt size exceeded'')
      else Inr (x ^ nat y))"

definition v8_max_bits :: nat where
  "v8_max_bits = 2 ^ 30"

definition BN_ipow :: "nat \<Rightarrow> BN \<Rightarrow> BN \<Rightarrow> js_error + BN" where
  "BN_ipow max_bits this num =
     (case bigint_pow max_bits (bn_n this) (abs_bn (bn_n num)) of
        Inl e \<Rightarrow> Inl e
      | Inr v \<Rightarrow> Inr (this\<lparr>bn_n := v\<rparr>))"

definition BN_ipown :: "nat \<Rightarrow> BN \<Rightarrow> int \<Rightarrow> js_error + BN" where
  "BN_ipown max_bits this num =
     (if \<not> isSMI num then Inl (enforce_err ''num'' ''smi'')
      else case bigint_pow max_bits (bn_n this) (abs_bn num) of
        Inl e \<Rightarrow> Inl e
      | Inr v \<Rightarrow> Inr (this\<lparr>bn_n := v\<rparr>))"

definition BN_pow :: "nat \<Rightarrow> BN \<Rightarrow> BN \<Rightarrow> js_error + BN" where
  "BN_pow max_bits this num = BN_ipow max_bits (clone this) num"

definition BN_pown :: "nat \<Rightarrow> BN \<Rightarrow> int \<Rightarrow> js_error + BN" where
  "BN_pown max_bits this num = BN_ipown max_bits (clone this) num"

lemma clone_id: "clone (b :: BN) = b"
  by (simp add: clone_def)

lemma abs_bn_abs: "abs_bn x = \<bar>x\<bar>"
  by (simp add: abs_bn_def abs_if)

lemma eight_below_v8_max: "(8::int) < 2 ^ v8_max_bits"
proof -
  have "(2::int) ^ 3 < 2 ^ v8_max_bits"
    by (rule power_strict_increasing) (simp_all add: v8_max_bits_def)
  then show ?thesis by simp
qed

text \<open>
  C4 (exponent sign). The claim reads: for every integer \<open>x\<close> and every negative exponent
  \<open>e\<close>, \<open>pow\<close> and \<open>ipow\<close> reject \<open>e\<close> with an error. The code computes
  \<open>this.n **= abs(num.n)\<close>, so the sign of the exponent is ignored: for every \<open>x\<close> and every
  exponent \<open>e\<close>, negative or not, \<open>ipow\<close> and \<open>pow\<close> do with \<open>e\<close> what they do with \<open>\<bar>e\<bar>\<close>.
  They return \<open>x\<close> raised to \<open>\<bar>e\<bar>\<close> when that power is within the size the engine holds,
  and otherwise throw the engine's \<open>Maximum BigInt size exceeded\<close>; nothing else is thrown.
\<close>

theorem pow_ignores_exponent_sign:
  "BN_ipow mb x e = BN_ipow mb x (e\<lparr>bn_n := \<bar>bn_n e\<bar>\<rparr>) \<and>
   BN_pow mb x e = BN_pow mb x (e\<lparr>bn_n := \<bar>bn_n e\<bar>\<rparr>) \<and>
   (\<bar>bn_n x ^ nat \<bar>bn_n e\<bar>\<bar> < 2 ^ mb \<longrightarrow>
      BN_ipow mb x e = Inr (x\<lparr>bn_n := bn_n x ^ nat \<bar>bn_n e\<bar>\<rparr>) \<and>
      BN_pow mb x e = Inr (x\<lparr>bn_n := bn_n x ^ nat \<bar>bn_n e\<bar>\<rparr>)) \<and>
   (2 ^ mb \<le> \<bar>bn_n x ^ nat \<bar>bn_n e\<bar>\<bar> \<longrightarrow>
      BN_ipow mb x e = Inl (RangeError ''Maximum BigInt size exceeded'') \<and>
      BN_pow mb x e = Inl (RangeError ''Maximum BigInt size exceeded''))"
  by (simp add: BN_pow_def BN_ipow_def bigint_pow_def clone_id abs_bn_abs linorder_not_le)

text \<open>The claim as stated fails at \<open>x = 2\<close>, \<open>e = -3\<close>: \<open>pow\<close> returns \<open>8\<close>.\<close>

theorem pow_negative_exponent_counterexample:
  "BN_pow v8_max_bits \<lparr>bn_n = 2, bn_red = None\<rparr> \<lparr>bn_n = - 3, bn_red = None\<rparr>
     = Inr \<lparr>bn_n = 8, bn_red = None\<rparr>"
  using eight_below_v8_max
  by (simp add: BN_pow_def BN_ipow_def bigint_pow_def clone_def abs_bn_def linorder_not_le)

theorem pow_ignores_exponent_sign_witness:
  "BN_ipow v8_max_bits \<lparr>bn_n = - 2, bn_red = None\<rparr> \<lparr>bn_n = - 3, bn_red = None\<rparr>
     = Inr \<lparr>bn_n = - 8, bn_red = None\<rparr> \<and>
   BN_pow v8_max_bits \<lparr>bn_n = 2, bn_red = None\<rparr> \<lparr>bn_n = - int v8_max_bits, bn_red = None\<rparr>
     = Inl (RangeError ''Maximum BigInt size exceeded'')"
proof -
  define x1 :: BN where "x1 = \<lparr>bn_n = - 2, bn_red = None\<rparr>"
  define e1 :: BN where "e1 = \<lparr>bn_n = - 3, bn_red = None\<rparr>"
  define x2 :: BN where "x2 = \<lparr>bn_n = 2, bn_red = None\<rparr>"
  define e2 :: BN where "e2 = \<lparr>bn_n = - int v8_max_bits, bn_red = None\<rparr>"
  have h1: "\<bar>bn_n x1 ^ nat \<bar>bn_n e1\<bar>\<bar> < 2 ^ v8_max_bits"
    using eight_below_v8_max by (simp add: x1_def e1_def)
  have h2: "2 ^ v8_max_bits \<le> \<bar>bn_n x2 ^ nat \<bar>bn_n e2\<bar>\<bar>"
    by (simp add: x2_def e2_def)
  from pow_ignores_exponent_sign [of v8_max_bits x1 e1] h1
  have "BN_ipow v8_max_bits x1 e1 = Inr (x1\<lparr>bn_n := bn_n x1 ^ nat \<bar>bn_n e1\<bar>\<rparr>)"
    by blast
  moreover from pow_ignores_exponent_sign [of v8_max_bits x2 e2] h2
  have "BN_pow v8_max_bits x2 e2 = Inl (RangeError ''Maximum BigInt size exceeded'')"
    by blast
  ultimately show ?thesis
    by (simp add: x1_def e1_def x2_def e2_def)
qed

subsection \<open>Bitwise operations on the magnitude\<close>

definition uand :: "int \<Rightarrow> int \<Rightarrow> int" where
  "uand x y = (let neg = x < 0; num = abs_bn x AND abs_bn y in if neg then - num else num)"

definition uor :: "int \<Rightarrow> int \<Rightarrow> int" where
  "uor x y = (let neg = x < 0; num = abs_bn x OR abs_bn y in if neg then - num else num)"

definition uxor :: "int \<Rightarrow> int \<Rightarrow> int" where
  "uxor x y = (let neg = x < 0; num = abs_bn x XOR abs_bn y in if neg then - num else num)"

definition ushr :: "int \<Rightarrow> int \<Rightarrow> int" where
  "ushr x y = (if x < 0 then - bigint_shr (- x) y else bigint_shr x y)"

definition uxorn :: "int \<Rightarrow> int \<Rightarrow> int" where
  "uxorn x y = uxor x y"

definition BN_ixor :: "BN \<Rightarrow> BN \<Rightarrow> js_error + BN" where
  "BN_ixor this num = Inr (this\<lparr>bn_n := bn_n this XOR bn_n num\<rparr>)"

definition BN_xor :: "BN \<Rightarrow> BN \<Rightarrow> js_error + BN" where
  "BN_xor this num = BN_ixor (clone this) num"

definition BN_iuand :: "BN \<Rightarrow> BN \<Rightarrow> js_error + BN" where
  "BN_iuand this num = Inr (this\<lparr>bn_n := uand (bn_n this) (bn_n num)\<rparr>)"

definition BN_uand :: "BN \<Rightarrow> BN \<Rightarrow> js_error + BN" where
  "BN_uand this num = BN_iuand (clone this) num"

definition BN_iuor :: "BN \<Rightarrow> BN \<Rightarrow> js_error + BN" where
  "BN_iuor this num = Inr (this\<lparr>bn_n := uor (bn_n this) (bn_n num)\<rparr>)"

definition BN_uor :: "BN \<Rightarrow> BN \<Rightarrow> js_error + BN" where
  "BN_uor this num = BN_iuor (clone this) num"

definition BN_iuxor :: "BN \<Rightarrow> BN \<Rightarrow> js_error + BN" where
  "BN_iuxor this num = Inr (this\<lparr>bn_n := uxor (bn_n this) (bn_n num)\<rparr>)"

definition BN_iuxorn :: "BN \<Rightarrow> int \<Rightarrow> js_error + BN" where
  "BN_iuxorn this num =
     (if \<not> isSMI num then Inl (enforce_err ''num'' ''smi'')
      else Inr (this\<lparr>bn_n := uxorn (bn_n this) num\<rparr>))"

text \<open>The pure form \<open>uxor\<close> clones the receiver and calls \<open>ixor\<close>, the signed exclusive or.\<close>

definition BN_uxor :: "BN \<Rightarrow> BN \<Rightarrow> js_error + BN" where
  "BN_uxor this num = BN_ixor (clone this) num"

definition BN_uxorn :: "BN \<Rightarrow> int \<Rightarrow> js_error + BN" where
  "BN_uxorn this num = BN_iuxorn (clone this) num"

definition BN_iushr :: "BN \<Rightarrow> BN \<Rightarrow> js_error + BN" where
  "BN_iushr this num =
     (if bn_n num < 0 then Inl (range_err ''iushr'')
      else Inr (this\<lparr>bn_n := ushr (bn_n this) (bn_n num)\<rparr>))"

definition BN_ushr :: "BN \<Rightarrow> BN \<Rightarrow> js_error + BN" where
  "BN_ushr this num = BN_iushr (clone this) num"

text \<open>The sign of the data model: a value is negative or not, and zero is not.\<close>

definition sign_of :: "int \<Rightarrow> int" where
  "sign_of x = (if x < 0 then - 1 else 1)"

lemma unsigned_ops_formula:
  "uand x y = sign_of x * (\<bar>x\<bar> AND \<bar>y\<bar>)"
  "uor x y = sign_of x * (\<bar>x\<bar> OR \<bar>y\<bar>)"
  "uxor x y = sign_of x * (\<bar>x\<bar> XOR \<bar>y\<bar>)"
  "0 \<le> y \<Longrightarrow> ushr x y = sign_of x * drop_bit (nat y) \<bar>x\<bar>"
  by (simp_all add: uand_def uor_def uxor_def ushr_def sign_of_def abs_bn_def abs_if
      bigint_shr_def Let_def)

lemma unsigned_methods_formula:
  "BN_iuand a b = Inr (a\<lparr>bn_n := sign_of (bn_n a) * (\<bar>bn_n a\<bar> AND \<bar>bn_n b\<bar>)\<rparr>)"
  "BN_uand a b = Inr (a\<lparr>bn_n := sign_of (bn_n a) * (\<bar>bn_n a\<bar> AND \<bar>bn_n b\<bar>)\<rparr>)"
  "BN_iuor a b = Inr (a\<lparr>bn_n := sign_of (bn_n a) * (\<bar>bn_n a\<bar> OR \<bar>bn_n b\<bar>)\<rparr>)"
  "BN_uor a b = Inr (a\<lparr>bn_n := sign_of (bn_n a) * (\<bar>bn_n a\<bar> OR \<bar>bn_n b\<bar>)\<rparr>)"
  "BN_iuxor a b = Inr (a\<lparr>bn_n := sign_of (bn_n a) * (\<bar>bn_n a\<bar> XOR \<bar>bn_n b\<bar>)\<rparr>)"
  by (simp_all add: BN_iuand_def BN_uand_def BN_iuor_def BN_uor_def BN_iuxor_def clone_id
      unsigned_ops_formula)

text \<open>
  C5 (unsigned bitwise variants). The claim reads: \<open>uand\<close>, \<open>uor\<close>, \<open>uxor\<close> and \<open>ushr\<close>, pure
  and in place, work on the magnitudes and keep the receiver's sign, so that the pure \<open>uxor\<close>
  gives \<open>sign x * (\<bar>x\<bar> XOR \<bar>y\<bar>)\<close>. The functions and the in-place methods do
  (\<open>unsigned_ops_formula\<close>, \<open>unsigned_methods_formula\<close>), but the pure method \<open>uxor\<close> calls
  the signed \<open>ixor\<close>: at \<open>x = -1\<close>, \<open>y = 1\<close> it returns \<open>-2\<close>, where the in-place \<open>iuxor\<close>
  and the formula give \<open>0\<close>.
\<close>

theorem uxor_signed_at_negative_receiver:
  "BN_uxor \<lparr>bn_n = - 1, bn_red = None\<rparr> \<lparr>bn_n = 1, bn_red = None\<rparr> = Inr \<lparr>bn_n = - 2, bn_red = None\<rparr> \<and>
   BN_iuxor \<lparr>bn_n = - 1, bn_red = None\<rparr> \<lparr>bn_n = 1, bn_red = None\<rparr> = Inr \<lparr>bn_n = 0, bn_red = None\<rparr> \<and>
   sign_of (- 1) * (\<bar>- 1\<bar> XOR \<bar>1\<bar>) = 0"
  by (simp add: BN_uxor_def BN_ixor_def BN_iuxor_def clone_def uxor_def abs_bn_def sign_of_def)

subsection \<open>Modular exponentiation and the Fermat inverse\<close>

text \<open>The \<open>while (y > 0n)\<close> loop of \<open>powm\<close>, square and multiply from the low bit.\<close>

function powm_loop :: "int \<Rightarrow> int \<Rightarrow> int \<Rightarrow> int \<Rightarrow> int" where
  "powm_loop r x y m =
     (if 0 < y then
        powm_loop (if y AND 1 = 1 then bigint_rem (r * x) m else r)
          (bigint_rem (x ^ 2) m) (bigint_shr y 1) m
      else r)"
  by pat_completeness auto
termination
  by (relation "measure (\<lambda>(r, x, y, m). nat y)") (auto simp: bigint_shr_def drop_bit_eq_div)

declare powm_loop.simps [simp del]

definition powm :: "int \<Rightarrow> int \<Rightarrow> int \<Rightarrow> js_error + int" where
  "powm x y m =
     (if \<not> 0 < m then Inl assert_err
      else if y < 0 then
        (case invert x m of
           Inl e \<Rightarrow> Inl e
         | Inr x1 \<Rightarrow> Inr (powm_loop 1 x1 (- y) m))
      else
        (case mod_bn x m of
           Inl e \<Rightarrow> Inl e
         | Inr x1 \<Rightarrow> Inr (powm_loop 1 x1 y m)))"

definition fermat :: "int \<Rightarrow> int \<Rightarrow> js_error + int" where
  "fermat x y =
     (if \<not> 0 < y then Inl assert_err
      else if y = 1 then Inl (RangeError ''Not invertible.'')
      else case powm x (y - 2) y of
        Inl e \<Rightarrow> Inl e
      | Inr iv \<Rightarrow> if iv = 0 then Inl (RangeError ''Not invertible.'') else Inr iv)"

section \<open>Reduction context\<close>

text \<open>\<open>new Red(m)\<close> for a big number \<open>m\<close>; \<open>ident\<close> is the identity of the new object.\<close>

definition Red_new :: "nat \<Rightarrow> BN \<Rightarrow> js_error + Red" where
  "Red_new ident m =
     (if \<not> 1 \<le> bn_n m then Inl (range_err ''reduction'')
      else Inr \<lparr>red_id = ident, red_m = bn_n m\<rparr>)"

text \<open>Reference equality \<open>===\<close> of two \<open>red\<close> fields, each a context or \<open>null\<close>.\<close>

fun same_ref :: "Red option \<Rightarrow> Red option \<Rightarrow> bool" where
  "same_ref None None = True"
| "same_ref (Some a) (Some b) = (red_id a = red_id b)"
| "same_ref _ _ = False"

definition negative :: "BN \<Rightarrow> int" where
  "negative a = (if bn_n a < 0 then 1 else 0)"

text \<open>\<open>_verify1\<close> and \<open>_verify2\<close> return the error they throw, if any.\<close>

definition Red_verify1 :: "BN \<Rightarrow> js_error option" where
  "Red_verify1 a =
     (if \<not> negative a = 0 then Some (range_err ''red'')
      else if bn_red a = None then Some (red_err ''red'')
      else None)"

definition Red_verify2 :: "BN \<Rightarrow> BN \<Rightarrow> js_error option" where
  "Red_verify2 a b =
     (if \<not> (negative a OR negative b) = 0 then Some (range_err ''red'')
      else if \<not> (bn_red a \<noteq> None \<and> same_ref (bn_red a) (bn_red b)) then Some (red_err ''red'')
      else None)"

definition Red_ineg :: "Red \<Rightarrow> BN \<Rightarrow> js_error + BN" where
  "Red_ineg this a =
     (case Red_verify1 a of
        Some e \<Rightarrow> Inl e
      | None \<Rightarrow> Inr (if bn_n a \<noteq> 0 then a\<lparr>bn_n := red_m this - bn_n a\<rparr> else a))"

definition Red_neg :: "Red \<Rightarrow> BN \<Rightarrow> js_error + BN" where
  "Red_neg this a = Red_ineg this (clone a)"

definition Red_iadd :: "Red \<Rightarrow> BN \<Rightarrow> BN \<Rightarrow> js_error + BN" where
  "Red_iadd this a b =
     (case Red_verify2 a b of
        Some e \<Rightarrow> Inl e
      | None \<Rightarrow>
          (let a = a\<lparr>bn_n := bn_n a + bn_n b\<rparr>
           in Inr (if red_m this \<le> bn_n a then a\<lparr>bn_n := bn_n a - red_m this\<rparr> else a)))"

definition Red_add :: "Red \<Rightarrow> BN \<Rightarrow> BN \<Rightarrow> js_error + BN" where
  "Red_add this a b = Red_iadd this (clone a) b"

definition Red_isub :: "Red \<Rightarrow> BN \<Rightarrow> BN \<Rightarrow> js_error + BN" where
  "Red_isub this a b =
     (case Red_verify2 a b of
        Some e \<Rightarrow> Inl e
      | None \<Rightarrow>
          (let a = a\<lparr>bn_n := bn_n a - bn_n b\<rparr>
           in Inr (if bn_n a < 0 then a\<lparr>bn_n := bn_n a + red_m this\<rparr> else a)))"

definition Red_sub :: "Red \<Rightarrow> BN \<Rightarrow> BN \<Rightarrow> js_error + BN" where
  "Red_sub this a b = Red_isub this (clone a) b"

definition Red_ishln :: "Red \<Rightarrow> BN \<Rightarrow> int \<Rightarrow> js_error + BN" where
  "Red_ishln this a num =
     (case Red_verify1 a of
        Some e \<Rightarrow> Inl e
      | None \<Rightarrow> Inr (a\<lparr>bn_n := bigint_rem (bigint_shl (bn_n a) num) (red_m this)\<rparr>))"

definition Red_shln :: "Red \<Rightarrow> BN \<Rightarrow> int \<Rightarrow> js_error + BN" where
  "Red_shln this a num = Red_ishln this (clone a) num"

definition Red_imul :: "Red \<Rightarrow> BN \<Rightarrow> BN \<Rightarrow> js_error + BN" where
  "Red_imul this a b =
     (case Red_verify2 a b of
        Some e \<Rightarrow> Inl e
      | None \<Rightarrow> Inr (a\<lparr>bn_n := bigint_rem (bn_n a * bn_n b) (red_m this)\<rparr>))"

definition Red_mul :: "Red \<Rightarrow> BN \<Rightarrow> BN \<Rightarrow> js_error + BN" where
  "Red_mul this a b =
     (case Red_verify2 a b of
        Some e \<Rightarrow> Inl e
      | None \<Rightarrow> Red_imul this (clone a) b)"

definition Red_isqr :: "Red \<Rightarrow> BN \<Rightarrow> js_error + BN" where
  "Red_isqr this a =
     (case Red_verify1 a of
        Some e \<Rightarrow> Inl e
      | None \<Rightarrow> Inr (a\<lparr>bn_n := bigint_rem (bn_n a ^ 2) (red_m this)\<rparr>))"

definition Red_sqr :: "Red \<Rightarrow> BN \<Rightarrow> js_error + BN" where
  "Red_sqr this a = Red_isqr this (clone a)"

definition Red_iinvert :: "Red \<Rightarrow> BN \<Rightarrow> js_error + BN" where
  "Red_iinvert this a =
     (case Red_verify1 a of
        Some e \<Rightarrow> Inl e
      | None \<Rightarrow>
          (case invert (bn_n a) (red_m this) of
             Inl e \<Rightarrow> Inl e
           | Inr v \<Rightarrow> Inr (a\<lparr>bn_n := v\<rparr>)))"

definition Red_invert :: "Red \<Rightarrow> BN \<Rightarrow> js_error + BN" where
  "Red_invert this a = Red_iinvert this (clone a)"

definition Red_ifermat :: "Red \<Rightarrow> BN \<Rightarrow> js_error + BN" where
  "Red_ifermat this a =
     (case Red_verify1 a of
        Some e \<Rightarrow> Inl e
      | None \<Rightarrow>
          (case fermat (bn_n a) (red_m this) of
             Inl e \<Rightarrow> Inl e
           | Inr v \<Rightarrow> Inr (a\<lparr>bn_n := v\<rparr>)))"

definition Red_fermat :: "Red \<Rightarrow> BN \<Rightarrow> js_error + BN" where
  "Red_fermat this a = Red_ifermat this (clone a)"

definition Red_ipow :: "Red \<Rightarrow> BN \<Rightarrow> BN \<Rightarrow> js_error + BN" where
  "Red_ipow this a num =
     (case Red_verify1 a of
        Some e \<Rightarrow> Inl e
      | None \<Rightarrow>
          (case powm (bn_n a) (bn_n num) (red_m this) of
             Inl e \<Rightarrow> Inl e
           | Inr v \<Rightarrow> Inr (a\<lparr>bn_n := v\<rparr>)))"

definition Red_pow :: "Red \<Rightarrow> BN \<Rightarrow> BN \<Rightarrow> js_error + BN" where
  "Red_pow this a num = Red_ipow this (clone a) num"

definition Red_convertTo :: "Red \<Rightarrow> BN \<Rightarrow> js_error + BN" where
  "Red_convertTo this num =
     (case mod_bn (bn_n num) (red_m this) of
        Inl e \<Rightarrow> Inl e
      | Inr v \<Rightarrow> Inr \<lparr>bn_n = v, bn_red = Some this\<rparr>)"

definition Red_convertFrom :: "Red \<Rightarrow> BN \<Rightarrow> BN" where
  "Red_convertFrom this num = (clone num)\<lparr>bn_red := None\<rparr>"

subsection \<open>The ring methods of a big number\<close>

definition BN_forceRed :: "BN \<Rightarrow> Red \<Rightarrow> BN" where
  "BN_forceRed this ctx = this\<lparr>bn_red := Some ctx\<rparr>"

definition BN_toRed :: "BN \<Rightarrow> Red \<Rightarrow> js_error + BN" where
  "BN_toRed this ctx =
     (if bn_red this \<noteq> None then Inl (Error ''Already in reduction context.'')
      else case Red_convertTo ctx this of
        Inl e \<Rightarrow> Inl e
      | Inr b \<Rightarrow> Inr (BN_forceRed b ctx))"

definition BN_fromRed :: "BN \<Rightarrow> js_error + BN" where
  "BN_fromRed this =
     (case bn_red this of
        None \<Rightarrow> Inl (red_err ''fromRed'')
      | Some ctx \<Rightarrow> Inr (Red_convertFrom ctx this))"

definition BN_redIAdd :: "BN \<Rightarrow> BN \<Rightarrow> js_error + BN" where
  "BN_redIAdd this num =
     (case bn_red this of None \<Rightarrow> Inl (red_err ''redIAdd'') | Some ctx \<Rightarrow> Red_iadd ctx this num)"

definition BN_redAdd :: "BN \<Rightarrow> BN \<Rightarrow> js_error + BN" where
  "BN_redAdd this num =
     (case bn_red this of None \<Rightarrow> Inl (red_err ''redAdd'') | Some ctx \<Rightarrow> Red_add ctx this num)"

definition BN_redISub :: "BN \<Rightarrow> BN \<Rightarrow> js_error + BN" where
  "BN_redISub this num =
     (case bn_red this of None \<Rightarrow> Inl (red_err ''redISub'') | Some ctx \<Rightarrow> Red_isub ctx this num)"

definition BN_redSub :: "BN \<Rightarrow> BN \<Rightarrow> js_error + BN" where
  "BN_redSub this num =
     (case bn_red this of None \<Rightarrow> Inl (red_err ''redSub'') | Some ctx \<Rightarrow> Red_sub ctx this num)"

definition BN_redIMul :: "BN \<Rightarrow> BN \<Rightarrow> js_error + BN" where
  "BN_redIMul this num =
     (case bn_red this of None \<Rightarrow> Inl (red_err ''redIMul'') | Some ctx \<Rightarrow> Red_imul ctx this num)"

definition BN_redMul :: "BN \<Rightarrow> BN \<Rightarrow> js_error + BN" where
  "BN_redMul this num =
     (case bn_red this of None \<Rightarrow> Inl (red_err ''redMul'') | Some ctx \<Rightarrow> Red_mul ctx this num)"

definition BN_redIPow :: "BN \<Rightarrow> BN \<Rightarrow> js_error + BN" where
  "BN_redIPow this num =
     (case bn_red this of
        None \<Rightarrow> Inl (red_err ''redIPow'')
      | Some ctx \<Rightarrow>
          if bn_red num \<noteq> None then Inl (nonred_err ''redIPow'') else Red_ipow ctx this num)"

definition BN_redPow :: "BN \<Rightarrow> BN \<Rightarrow> js_error + BN" where
  "BN_redPow this num =
     (case bn_red this of
        None \<Rightarrow> Inl (red_err ''redPow'')
      | Some ctx \<Rightarrow>
          if bn_red num \<noteq> None then Inl (nonred_err ''redPow'') else Red_pow ctx this num)"

lemma verify2_distinct:
  assumes "bn_red u = Some A" "bn_red v = Some B" "red_id A \<noteq> red_id B"
  shows "Red_verify2 u v \<noteq> None"
  using assms by (simp add: Red_verify2_def)

text \<open>
  C7 (ring discipline). For every two reduction contexts \<open>A\<close> and \<open>B\<close> that are distinct
  instances, whatever their moduli, and every value \<open>u\<close> tagged to \<open>A\<close> and \<open>v\<close> tagged to
  \<open>B\<close>, the binary ring operations \<open>redAdd\<close>, \<open>redSub\<close>, \<open>redMul\<close> and their in-place forms
  raise an error.
\<close>

theorem mixed_contexts_rejected:
  assumes "bn_red u = Some A" and "bn_red v = Some B" and "red_id A \<noteq> red_id B"
  shows "(\<exists>e. BN_redAdd u v = Inl e) \<and> (\<exists>e. BN_redIAdd u v = Inl e) \<and>
         (\<exists>e. BN_redSub u v = Inl e) \<and> (\<exists>e. BN_redISub u v = Inl e) \<and>
         (\<exists>e. BN_redMul u v = Inl e) \<and> (\<exists>e. BN_redIMul u v = Inl e)"
proof -
  obtain e where e: "Red_verify2 u v = Some e"
    using verify2_distinct [OF assms] by auto
  then show ?thesis
    using assms(1)
    by (simp add: BN_redAdd_def BN_redIAdd_def BN_redSub_def BN_redISub_def BN_redMul_def
        BN_redIMul_def Red_add_def Red_iadd_def Red_sub_def Red_isub_def Red_mul_def Red_imul_def
        clone_id)
qed

theorem mixed_contexts_rejected_witness:
  "\<exists>e. BN_redAdd \<lparr>bn_n = 3, bn_red = Some \<lparr>red_id = 0, red_m = 7\<rparr>\<rparr>
                   \<lparr>bn_n = 4, bn_red = Some \<lparr>red_id = 1, red_m = 7\<rparr>\<rparr> = Inl e"
proof -
  have "red_id \<lparr>red_id = 0, red_m = 7\<rparr> \<noteq> red_id \<lparr>red_id = 1, red_m = (7::int)\<rparr>"
    by simp
  from mixed_contexts_rejected [OF _ _ this,
      of "\<lparr>bn_n = 3, bn_red = Some \<lparr>red_id = 0, red_m = 7\<rparr>\<rparr>"
         "\<lparr>bn_n = 4, bn_red = Some \<lparr>red_id = 1, red_m = 7\<rparr>\<rparr>"]
  show ?thesis by simp
qed

text \<open>
  C8 (canonical residues). The claim reads: every value produced by \<open>toRed\<close> or by a ring
  operation on canonical inputs lies in \<open>[0, m)\<close>. \<open>new Red\<close> accepts the modulus \<open>1\<close>, and
  \<open>powm\<close> returns its initial \<open>r = 1\<close> unreduced when the exponent is \<open>0\<close>: in the context of
  modulus \<open>1\<close>, \<open>redPow\<close> of the canonical \<open>0\<close> to the exponent \<open>0\<close> is tagged \<open>1\<close>, outside
  \<open>[0, 1)\<close>.
\<close>

theorem redPow_zero_exponent_modulus_one:
  "Red_new 0 \<lparr>bn_n = 1, bn_red = None\<rparr> = Inr \<lparr>red_id = 0, red_m = 1\<rparr> \<and>
   BN_toRed \<lparr>bn_n = 0, bn_red = None\<rparr> \<lparr>red_id = 0, red_m = 1\<rparr>
     = Inr \<lparr>bn_n = 0, bn_red = Some \<lparr>red_id = 0, red_m = 1\<rparr>\<rparr> \<and>
   BN_redPow \<lparr>bn_n = 0, bn_red = Some \<lparr>red_id = 0, red_m = 1\<rparr>\<rparr> \<lparr>bn_n = 0, bn_red = None\<rparr>
     = Inr \<lparr>bn_n = 1, bn_red = Some \<lparr>red_id = 0, red_m = 1\<rparr>\<rparr>"
  by (simp add: Red_new_def BN_toRed_def Red_convertTo_def mod_bn_pos BN_forceRed_def
      BN_redPow_def Red_pow_def Red_ipow_def Red_verify1_def negative_def clone_def powm_def
      powm_loop.simps)

subsection \<open>Counting bits\<close>

definition U8_MAX :: int where "U8_MAX = bigint_shl 1 8 - 1"
definition U16_MAX :: int where "U16_MAX = bigint_shl 1 16 - 1"
definition U32_MAX :: int where "U32_MAX = bigint_shl 1 32 - 1"
definition U64_MAX :: int where "U64_MAX = bigint_shl 1 64 - 1"
definition U128_MAX :: int where "U128_MAX = bigint_shl 1 128 - 1"
definition U256_MAX :: int where "U256_MAX = bigint_shl 1 256 - 1"

lemma shr_decreases: "0 < x \<Longrightarrow> 0 < w \<Longrightarrow> bigint_shr x w < x"
proof -
  assume a: "0 < x" "0 < w"
  then have "(1::int) < 2 ^ nat w"
    by (intro one_less_power) simp_all
  then have "x div 2 ^ nat w < x"
    using a by (intro int_div_less_self) simp_all
  then show ?thesis
    using a by (simp add: bigint_shr_def drop_bit_eq_div)
qed

text \<open>
  One loop of \<open>zeroBits\<close>: \<open>while ((x & m) === 0n) { i += w; x >>= w; }\<close>. The function
  returns early on zero and negates a negative \<open>x\<close>, so the loops run on \<open>x > 0\<close> only, where
  they end; the conjuncts \<open>0 < x\<close> and \<open>0 < w\<close> stand for that in the total model.
\<close>

function zb_loop :: "int \<Rightarrow> int \<Rightarrow> int \<Rightarrow> int \<Rightarrow> int \<times> int" where
  "zb_loop m w x i =
     (if x AND m = 0 \<and> 0 < x \<and> 0 < w then zb_loop m w (bigint_shr x w) (i + w)
      else (i, x))"
  by pat_completeness auto
termination
  by (relation "measure (\<lambda>(m, w, x, i). nat x)") (simp_all add: shr_decreases)

declare zb_loop.simps [simp del]

definition zeroBits :: "int \<Rightarrow> int" where
  "zeroBits x =
     (if x = 0 then 0
      else let x = (if x < 0 then - x else x);
               (i, x) = zb_loop U32_MAX 32 x 0;
               (i, x) = zb_loop U16_MAX 16 x i;
               (i, x) = zb_loop U8_MAX 8 x i;
               (i, x) = zb_loop 1 1 x i
           in i)"

lemma zb_loop_fst_ge: "i \<le> fst (zb_loop m w x i)"
proof (induction m w x i rule: zb_loop.induct)
  case (1 m w x i)
  show ?case
  proof (cases "x AND m = 0 \<and> 0 < x \<and> 0 < w")
    case True
    then have "zb_loop m w x i = zb_loop m w (bigint_shr x w) (i + w)"
      by (subst zb_loop.simps) simp
    moreover have "i + w \<le> fst (zb_loop m w (bigint_shr x w) (i + w))"
      using True by (intro "1.IH") simp_all
    ultimately show ?thesis using True by simp
  next
    case False
    have "zb_loop m w x i = (i, x)"
      by (subst zb_loop.simps) (simp only: False if_False)
    then show ?thesis by simp
  qed
qed

lemma zeroBits_nonneg: "0 \<le> zeroBits x"
proof -
  have "0 \<le> fst (zb_loop m4 w4 x4
      (fst (zb_loop m3 w3 x3 (fst (zb_loop m2 w2 x2 (fst (zb_loop m1 w1 x1 0)))))))"
    for m1 w1 x1 m2 w2 x2 m3 w3 x3 m4 w4 x4
    using zb_loop_fst_ge [of 0 m1 w1 x1]
      zb_loop_fst_ge [of "fst (zb_loop m1 w1 x1 0)" m2 w2 x2]
      zb_loop_fst_ge [of "fst (zb_loop m2 w2 x2 (fst (zb_loop m1 w1 x1 0)))" m3 w3 x3]
      zb_loop_fst_ge [of "fst (zb_loop m3 w3 x3 (fst (zb_loop m2 w2 x2 (fst (zb_loop m1 w1 x1 0)))))" m4 w4 x4]
    by linarith
  then show ?thesis
    by (simp add: zeroBits_def Let_def split_beta)
qed

text \<open>One loop of \<open>countWords\<close>: \<open>while (x >= m) { i += w; x >>= w; }\<close>, for a positive
  threshold \<open>m\<close>; the last loop is \<open>while (x > 0n)\<close>, the threshold \<open>1\<close>.\<close>

function cw_loop :: "int \<Rightarrow> int \<Rightarrow> int \<Rightarrow> int \<Rightarrow> int \<times> int" where
  "cw_loop m w x i =
     (if m \<le> x \<and> 0 < x \<and> 0 < w then cw_loop m w (bigint_shr x w) (i + w)
      else (i, x))"
  by pat_completeness auto
termination
  by (relation "measure (\<lambda>(m, w, x, i). nat x)") (simp_all add: shr_decreases)

declare cw_loop.simps [simp del]

text \<open>The counters are JavaScript numbers, integers here. The result
  \<open>((i + (w - 1)) / w) >>> 0\<close> is the quotient cut to an unsigned 32-bit number.\<close>

definition countWords :: "int \<Rightarrow> int \<Rightarrow> int" where
  "countWords x w =
     (if x = 0 then 0
      else let x = (if x < 0 then - x else x);
               (i, x) = cw_loop U256_MAX 256 x 0;
               (i, x) = cw_loop U128_MAX 128 x i;
               (i, x) = cw_loop U64_MAX 64 x i;
               (i, x) = cw_loop U32_MAX 32 x i;
               (i, x) = cw_loop U16_MAX 16 x i;
               (i, x) = cw_loop U8_MAX 8 x i;
               (i, x) = cw_loop 1 1 x i
           in ((i + (w - 1)) div w) mod 2 ^ 32)"

definition byteLength :: "int \<Rightarrow> int" where
  "byteLength x = countWords x 8"


subsection \<open>Integer square root\<close>





subsection \<open>Jacobi symbol\<close>

lemma abs_div_power_le: "\<bar>(v::int) div 2 ^ s\<bar> \<le> \<bar>v\<bar>"
proof (cases "0 \<le> v")
  case True
  have "v div 2 ^ s \<le> v"
  proof (cases "v = 0")
    case False
    with True have "0 < v" by simp
    then show ?thesis by (rule int_div_le_self)
  qed simp
  moreover have "0 \<le> v div 2 ^ s"
    using True by (simp add: pos_imp_zdiv_nonneg_iff)
  ultimately show ?thesis using True by simp
next
  case False
  then have n: "v < 0" by simp
  then have "v div 2 ^ s < 0"
    by (intro div_neg_pos_less0) simp_all
  moreover have "v \<le> v div 2 ^ s"
  proof -
    have "v * 2 ^ s \<le> v * 1"
      using n by (intro mult_left_mono_neg) simp_all
    then have "(v * 2 ^ s) div 2 ^ s \<le> v div 2 ^ s"
      by (intro zdiv_mono1) simp_all
    then show ?thesis by simp
  qed
  ultimately show ?thesis using n by simp
qed

lemma jacobi_step_decreases:
  assumes "b \<noteq> 0"
    and "0 \<le> s"
  shows "\<bar>bigint_shr (bigint_rem a b) s\<bar> < \<bar>b\<bar>"
proof -
  have "\<bar>bigint_rem a b div 2 ^ nat s\<bar> \<le> \<bar>bigint_rem a b\<bar>"
    by (rule abs_div_power_le)
  also have "\<dots> < \<bar>b\<bar>"
    by (rule bigint_rem_abs_less [OF assms(1)])
  finally show ?thesis
    using assms(2) by (simp add: bigint_shr_def drop_bit_eq_div)
qed

text \<open>The \<open>for (;;)\<close> loop of \<open>jacobi\<close>; \<open>a %= b\<close> throws when \<open>b\<close> is zero.\<close>

function jacobi_loop :: "int \<Rightarrow> int \<Rightarrow> int \<Rightarrow> js_error + int" where
  "jacobi_loop a b j =
     (if b = 1 then Inr j
      else if a = 0 then Inr 0
      else if b = 0 then Inl (RangeError ''Division by zero'')
      else let a = bigint_rem a b in
        if a = 0 then Inr 0
        else let s = zeroBits a;
                 j = (if odd s \<and> (b AND 7 = 3 \<or> b AND 7 = 5) then - j else j);
                 c = bigint_shr a s;
                 j = (if b AND 3 = 3 \<and> c AND 3 = 3 then - j else j)
             in jacobi_loop b c j)"
  by pat_completeness auto
termination
  by (relation "measure (\<lambda>(a, b, j). nat \<bar>b\<bar>)") (simp_all add: jacobi_step_decreases zeroBits_nonneg)

declare jacobi_loop.simps [simp del]

definition jacobi :: "int \<Rightarrow> int \<Rightarrow> js_error + int" where
  "jacobi x y =
     (if y = 0 \<or> y AND 1 = 0 then Inl (Error ''jacobi: `num` must be odd.'')
      else let a = x; b = y; j = 1;
               j = (if b < 0 \<and> a < 0 then - 1 else j);
               b = (if b < 0 then - b else b)
           in case (if a < 0 then mod_bn a b else Inr a) of
                Inl e \<Rightarrow> Inl e
              | Inr a \<Rightarrow> jacobi_loop a b j)"

subsection \<open>Strong Lucas test\<close>










lemma and_mask_zero_iff: "(x::int) AND mask k = 0 \<longleftrightarrow> 2 ^ k dvd x"
  by (simp add: take_bit_eq_mask [symmetric] take_bit_eq_mod mod_eq_0_iff_dvd)

lemma zb_loop_spec:
  "m = mask k \<Longrightarrow> w = int k \<Longrightarrow> 0 < k \<Longrightarrow> 0 < x \<Longrightarrow> zb_loop m w x i = (i', x') \<Longrightarrow>
   0 < x' \<and> i \<le> i' \<and> x = x' * 2 ^ nat (i' - i) \<and> x' AND m \<noteq> 0"
proof (induction m w x i rule: zb_loop.induct)
  case (1 m w x i)
  show ?case
  proof (cases "x AND m = 0")
    case True
    with "1.prems" have cond: "x AND m = 0 \<and> 0 < x \<and> 0 < w" by simp
    have d: "2 ^ k dvd x"
      using True "1.prems"(1) by (simp add: and_mask_zero_iff)
    define x1 where "x1 = bigint_shr x w"
    have x1: "x1 = x div 2 ^ k"
      by (simp add: x1_def bigint_shr_def "1.prems"(2) drop_bit_eq_div)
    have xx: "x = x1 * 2 ^ k"
      using d by (simp add: x1)
    have x1pos: "0 < x1"
    proof (rule ccontr)
      assume "\<not> 0 < x1"
      then have "x1 * 2 ^ k \<le> 0"
        by (simp add: mult_le_0_iff)
      with xx "1.prems"(4) show False by simp
    qed
    have step: "zb_loop m w x1 (i + w) = (i', x')"
      using "1.prems"(5) cond by (subst (asm) zb_loop.simps) (simp add: x1_def)
    have "0 < x' \<and> i + w \<le> i' \<and> x1 = x' * 2 ^ nat (i' - (i + w)) \<and> x' AND m \<noteq> 0"
      using "1.IH" [OF cond "1.prems"(1,2,3) x1pos [unfolded x1_def] step [unfolded x1_def]]
      by (simp add: x1_def)
    then have a: "0 < x'" and b: "i + w \<le> i'" and c: "x1 = x' * 2 ^ nat (i' - (i + w))"
      and e: "x' AND m \<noteq> 0"
      by blast+
    have "nat (i' - i) = nat (i' - (i + w)) + k"
      using b "1.prems"(2) by simp
    then have "x = x' * 2 ^ nat (i' - i)"
      using xx c by (simp add: power_add)
    with a b e "1.prems"(2) show ?thesis by simp
  next
    case False
    then have "zb_loop m w x i = (i, x)"
      by (subst zb_loop.simps) simp
    with "1.prems" False show ?thesis by simp
  qed
qed

lemma U_MAX_mask:
  "U8_MAX = mask 8" "U16_MAX = mask 16" "U32_MAX = mask 32" "U64_MAX = mask 64"
  "U128_MAX = mask 128" "U256_MAX = mask 256" "(1::int) = mask 1"
  by (simp_all add: U8_MAX_def U16_MAX_def U32_MAX_def U64_MAX_def U128_MAX_def U256_MAX_def
      bigint_shl_def mask_eq_exp_minus_1 push_bit_eq_mult)

lemma zeroBits_pos_spec:
  assumes "0 < x"
  shows "\<exists>c. 0 < c \<and> odd c \<and> x = c * 2 ^ nat (zeroBits x) \<and> bigint_shr x (zeroBits x) = c"
proof -
  obtain i1 x1 where l1: "zb_loop U32_MAX 32 x 0 = (i1, x1)"
    by (cases "zb_loop U32_MAX 32 x 0") auto
  obtain i2 x2 where l2: "zb_loop U16_MAX 16 x1 i1 = (i2, x2)"
    by (cases "zb_loop U16_MAX 16 x1 i1") auto
  obtain i3 x3 where l3: "zb_loop U8_MAX 8 x2 i2 = (i3, x3)"
    by (cases "zb_loop U8_MAX 8 x2 i2") auto
  obtain i4 x4 where l4: "zb_loop 1 1 x3 i3 = (i4, x4)"
    by (cases "zb_loop 1 1 x3 i3") auto
  have z: "zeroBits x = i4"
    using assms l1 l2 l3 l4 by (simp add: zeroBits_def)
  have s1: "0 < x1 \<and> 0 \<le> i1 \<and> x = x1 * 2 ^ nat (i1 - 0) \<and> x1 AND U32_MAX \<noteq> 0"
    by (rule zb_loop_spec [OF U_MAX_mask(3) _ _ assms l1]) simp_all
  then have p1: "0 < x1" by simp
  have s2: "0 < x2 \<and> i1 \<le> i2 \<and> x1 = x2 * 2 ^ nat (i2 - i1) \<and> x2 AND U16_MAX \<noteq> 0"
    by (rule zb_loop_spec [OF U_MAX_mask(2) _ _ p1 l2]) simp_all
  then have p2: "0 < x2" by simp
  have s3: "0 < x3 \<and> i2 \<le> i3 \<and> x2 = x3 * 2 ^ nat (i3 - i2) \<and> x3 AND U8_MAX \<noteq> 0"
    by (rule zb_loop_spec [OF U_MAX_mask(1) _ _ p2 l3]) simp_all
  then have p3: "0 < x3" by simp
  have s4: "0 < x4 \<and> i3 \<le> i4 \<and> x3 = x4 * 2 ^ nat (i4 - i3) \<and> x4 AND 1 \<noteq> 0"
    by (rule zb_loop_spec [OF U_MAX_mask(7) _ _ p3 l4]) simp_all
  have le: "0 \<le> i1" "i1 \<le> i2" "i2 \<le> i3" "i3 \<le> i4"
    using s1 s2 s3 s4 by blast+
  have e: "nat i4 = nat (i4 - i3) + nat (i3 - i2) + nat (i2 - i1) + nat (i1 - 0)"
    using le by linarith
  have "x = x4 * 2 ^ nat (i4 - i3) * 2 ^ nat (i3 - i2) * 2 ^ nat (i2 - i1) * 2 ^ nat (i1 - 0)"
    using s1 s2 s3 s4 by metis
  then have x: "x = x4 * 2 ^ nat i4"
    by (simp add: e power_add)
  have o: "odd x4"
    using s4 by (auto simp: and_one_eq mod_2_eq_odd)
  have "bigint_shr x i4 = x4"
    using s1 s2 s3 s4 by (subst x) (simp add: bigint_shr_def drop_bit_eq_div)
  with x o s4 z show ?thesis by simp
qed



lemma and_one_zero_iff_even: "(n::int) AND 1 = 0 \<longleftrightarrow> even n"
  by (simp add: and_one_eq even_iff_mod_2_eq_zero)













lemma and_7_eq_mod: "(n::int) AND 7 = n mod 8"
proof -
  have "(7::int) = mask 3" by (simp add: mask_eq_exp_minus_1)
  then have "n AND 7 = take_bit 3 n" by (simp add: take_bit_eq_mask)
  then show ?thesis by (simp add: take_bit_eq_mod)
qed

lemma and_3_eq_mod: "(n::int) AND 3 = n mod 4"
proof -
  have "(3::int) = mask 2" by (simp add: mask_eq_exp_minus_1)
  then have "n AND 3 = take_bit 2 n" by (simp add: take_bit_eq_mask)
  then show ?thesis by (simp add: take_bit_eq_mod)
qed









section \<open>Byte serialization\<close>

text \<open>
  Bytes are numbers from \<open>0\<close> to \<open>255\<close>. Where only the contents of a byte array matter it
  is a list of bytes. \<open>fromBuffer\<close> also reads the placement of its argument, so there a
  \<open>Buffer\<close> is a view of \<open>buf_length\<close> bytes at \<open>byteOffset\<close> into the bytes \<open>buf_mem\<close> of its
  \<open>ArrayBuffer\<close>.
\<close>

record buffer =
  buf_mem :: "nat list"
  byteOffset :: nat
  buf_length :: nat

definition buffer_bytes :: "buffer \<Rightarrow> nat list" where
  "buffer_bytes b = take (buf_length b) (drop (byteOffset b) (buf_mem b))"

definition buffer_ok :: "buffer \<Rightarrow> bool" where
  "buffer_ok b \<longleftrightarrow>
     byteOffset b + buf_length b \<le> length (buf_mem b) \<and> list_all (\<lambda>v. v < 256) (buf_mem b)"

subsection \<open>Strings of hexadecimal digits\<close>

definition hexchar :: "nat \<Rightarrow> char" where
  "hexchar d = (if d < 10 then char_of (48 + d) else char_of (87 + d))"

text \<open>\<open>n.toString(16)\<close> of a big integer that is not negative.\<close>

fun toString16 :: "nat \<Rightarrow> string" where
  "toString16 k = (if k < 16 then [hexchar k] else toString16 (k div 16) @ [hexchar (k mod 16)])"

declare toString16.simps [simp del]

text \<open>\<open>str.padStart(target, fill)\<close>.\<close>

definition padStart :: "string \<Rightarrow> nat \<Rightarrow> string \<Rightarrow> string" where
  "padStart str target fill =
     (if target \<le> length str \<or> fill = [] then str
      else take (target - length str) (concat (replicate (target - length str) fill)) @ str)"

definition hexval :: "char \<Rightarrow> nat option" where
  "hexval c =
     (let k = of_char c :: nat in
      if 48 \<le> k \<and> k \<le> 57 then Some (k - 48)
      else if 97 \<le> k \<and> k \<le> 102 then Some (k - 87)
      else if 65 \<le> k \<and> k \<le> 70 then Some (k - 55)
      else None)"

text \<open>\<open>Buffer.from(hex, 'hex')\<close>: one byte for every two digits, up to the first pair that
  is not hexadecimal.\<close>

fun hex_decode :: "string \<Rightarrow> nat list" where
  "hex_decode (a # b # rest) =
     (case (hexval a, hexval b) of
        (Some x, Some y) \<Rightarrow> (16 * x + y) # hex_decode rest
      | _ \<Rightarrow> [])"
| "hex_decode _ = []"

subsection \<open>Reversal in place\<close>

text \<open>\<open>for (let i = data.length - 1, j = 0; i > j; i--, j++)\<close> swapping \<open>data[i]\<close> and
  \<open>data[j]\<close>.\<close>

function reverse_loop :: "nat list \<Rightarrow> int \<Rightarrow> int \<Rightarrow> nat list" where
  "reverse_loop data i j =
     (if j < i then reverse_loop (data[nat i := data ! nat j, nat j := data ! nat i]) (i - 1) (j + 1)
      else data)"
  by pat_completeness auto
termination
  by (relation "measure (\<lambda>(data, i, j). nat (i - j))") auto

declare reverse_loop.simps [simp del]

definition reverse :: "nat list \<Rightarrow> nat list" where
  "reverse data = reverse_loop data (int (length data) - 1) 0"

subsection \<open>To bytes\<close>

definition endian_ok :: "string \<Rightarrow> bool" where
  "endian_ok endian \<longleftrightarrow> endian = ''be'' \<or> endian = ''le''"

definition toBuffer :: "int \<Rightarrow> string option \<Rightarrow> int option \<Rightarrow> js_error + nat list" where
  "toBuffer n endian0 length0 =
     (let endian = (case endian0 of None \<Rightarrow> ''be'' | Some e \<Rightarrow> e);
          len = (case length0 of None \<Rightarrow> 0 | Some l \<Rightarrow> l)
      in if \<not> endian_ok endian then Inl (enforce_err ''endian'' ''endianness'')
         else if \<not> (0 \<le> len \<and> len < 2 ^ 32) then Inl (enforce_err ''length'' ''integer'')
         else
           let str = toString16 (nat (abs_bn n));
               str = (if odd (length str) then CHR ''0'' # str else str);
               bytes = int (length str div 2);
               sz = (if len \<noteq> 0 then len else max 1 bytes)
           in if sz < bytes then Inl (RangeError ''Byte array longer than desired length.'')
              else
                let hex = padStart str (nat (sz * 2)) ''00'';
                    out = hex_decode hex
                in Inr (if endian = ''le'' then reverse out else out))"

text \<open>\<open>allocate\<close> gives an array of \<open>sz\<close> cells; \<open>uninit\<close> is what the cells hold before
  they are written. A write outside the array leaves it as it is.\<close>

definition allocate :: "(nat \<Rightarrow> nat) \<Rightarrow> int \<Rightarrow> nat list" where
  "allocate uninit sz = map uninit [0..<nat sz]"

definition store_at :: "nat list \<Rightarrow> int \<Rightarrow> nat \<Rightarrow> nat list" where
  "store_at res i v = (if 0 \<le> i \<and> i < int (length res) then res[nat i := v] else res)"

function tal_be_loop :: "nat list \<Rightarrow> int \<Rightarrow> int \<Rightarrow> nat list \<times> int" where
  "tal_be_loop res i q =
     (if 0 < q then tal_be_loop (store_at res i (nat (q AND 0xff))) (i - 1) (bigint_shr q 8)
      else (res, i))"
  by pat_completeness auto
termination
  by (relation "measure (\<lambda>(res, i, q). nat q)") (simp_all add: shr_decreases)

function tal_le_loop :: "nat list \<Rightarrow> int \<Rightarrow> int \<Rightarrow> nat list \<times> int" where
  "tal_le_loop res i q =
     (if 0 < q then tal_le_loop (store_at res i (nat (q AND 0xff))) (i + 1) (bigint_shr q 8)
      else (res, i))"
  by pat_completeness auto
termination
  by (relation "measure (\<lambda>(res, i, q). nat q)") (simp_all add: shr_decreases)

function fill_down :: "nat list \<Rightarrow> int \<Rightarrow> nat list" where
  "fill_down res i = (if 0 \<le> i then fill_down (store_at res i 0) (i - 1) else res)"
  by pat_completeness auto
termination
  by (relation "measure (\<lambda>(res, i). nat (i + 1))") auto

function fill_up :: "nat list \<Rightarrow> int \<Rightarrow> int \<Rightarrow> nat list" where
  "fill_up res i sz = (if i < sz then fill_up (store_at res i 0) (i + 1) sz else res)"
  by pat_completeness auto
termination
  by (relation "measure (\<lambda>(res, i, sz). nat (sz - i))") auto

declare tal_be_loop.simps [simp del] tal_le_loop.simps [simp del]
  fill_down.simps [simp del] fill_up.simps [simp del]

definition toArrayLike ::
  "int \<Rightarrow> (nat \<Rightarrow> nat) \<Rightarrow> string option \<Rightarrow> int option \<Rightarrow> js_error + nat list" where
  "toArrayLike n uninit endian0 length0 =
     (let endian = (case endian0 of None \<Rightarrow> ''be'' | Some e \<Rightarrow> e);
          len = (case length0 of None \<Rightarrow> 0 | Some l \<Rightarrow> l)
      in if \<not> endian_ok endian then Inl (enforce_err ''endian'' ''endianness'')
         else if \<not> (0 \<le> len \<and> len < 2 ^ 32) then Inl (enforce_err ''length'' ''integer'')
         else
           let bytes = byteLength n;
               sz = (if len \<noteq> 0 then len else max 1 bytes)
           in if sz < bytes then Inl (RangeError ''Byte array longer than desired length.'')
              else
                let res = allocate uninit sz;
                    q = abs_bn n
                in if endian = ''be'' then
                     (let (res, i) = tal_be_loop res (sz - 1) q in Inr (fill_down res i))
                   else
                     (let (res, i) = tal_le_loop res 0 q in Inr (fill_up res i sz)))"

subsection \<open>From bytes\<close>

text \<open>
  \<open>fromBuffer\<close> reads the buffer as 64-bit words of the machine, whose byte order is the
  constant \<open>ENDIAN\<close>, a parameter here. \<open>Buffer.from(data)\<close> copies the bytes into a new
  buffer; \<open>pool\<close> is what lies before the copy in its \<open>ArrayBuffer\<close>.
\<close>

definition Buffer_from :: "nat list \<Rightarrow> nat list \<Rightarrow> buffer" where
  "Buffer_from pool bytes =
     \<lparr>buf_mem = pool @ bytes, byteOffset = length pool, buf_length = length bytes\<rparr>"

definition Buffer_view :: "buffer \<Rightarrow> nat \<Rightarrow> nat \<Rightarrow> buffer" where
  "Buffer_view data off len = \<lparr>buf_mem = buf_mem data, byteOffset = off, buf_length = len\<rparr>"

definition data_at :: "buffer \<Rightarrow> nat \<Rightarrow> int" where
  "data_at data i = int (buf_mem data ! (byteOffset data + i))"

text \<open>Element \<open>i\<close> of the \<open>BigUint64Array\<close> over the buffer, in the byte order of the
  machine.\<close>

definition word64_at :: "string \<Rightarrow> buffer \<Rightarrow> nat \<Rightarrow> int" where
  "word64_at ENDIAN data i =
     (let bs = map (\<lambda>k. data_at data (8 * i + k)) [0..<8]
      in if ENDIAN = ''be'' then foldl (\<lambda>a b. a * 256 + b) 0 bs
         else foldr (\<lambda>b a. b + 256 * a) bs 0)"

definition mask_bn :: "int \<Rightarrow> int" where
  "mask_bn width = bigint_shl 1 width - 1"

text \<open>The loops \<open>n <<= 8n; n |= BigInt(data[i])\<close> and \<open>n <<= 64n; n |= arr[i]\<close> over a
  list of indices.\<close>

definition read_bytes :: "buffer \<Rightarrow> int \<Rightarrow> nat list \<Rightarrow> int" where
  "read_bytes data n idx = foldl (\<lambda>n i. push_bit 8 n OR data_at data i) n idx"

definition read_words :: "string \<Rightarrow> buffer \<Rightarrow> int \<Rightarrow> nat list \<Rightarrow> int" where
  "read_words ENDIAN data n idx = foldl (\<lambda>n i. push_bit 64 n OR word64_at ENDIAN data i) n idx"

text \<open>The body of \<open>fromBuffer\<close> from \<open>const unaligned = data.byteOffset & 7\<close> on, the
  buffer being in the byte order of the machine.\<close>

definition fromBuffer_read :: "string \<Rightarrow> buffer \<Rightarrow> int" where
  "fromBuffer_read ENDIAN data0 =
     (let unaligned = byteOffset data0 mod 8;
          data = (if unaligned \<noteq> 0
                  then Buffer_view data0 (byteOffset data0 - unaligned) (unaligned + buf_length data0)
                  else data0);
          arr_length = buf_length data div 8;
          left = buf_length data mod 8;
          start = buf_length data - left
      in if ENDIAN = ''be'' then
           (let n = read_words ENDIAN data 0 [0..<arr_length];
                n = read_bytes data n [start..<buf_length data]
            in if unaligned \<noteq> 0
               then n AND mask_bn (int ((buf_length data - unaligned) * 8)) else n)
         else
           (let n = read_bytes data 0 (rev [start..<buf_length data]);
                n = read_words ENDIAN data n (rev [0..<arr_length])
            in if unaligned \<noteq> 0 then bigint_shr n (int (unaligned * 8)) else n))"

definition fromBuffer :: "string \<Rightarrow> nat list \<Rightarrow> buffer \<Rightarrow> string option \<Rightarrow> js_error + int" where
  "fromBuffer ENDIAN pool data endian0 =
     (let endian = (case endian0 of None \<Rightarrow> ''be'' | Some e \<Rightarrow> e)
      in if \<not> endian_ok endian then Inl (enforce_err ''endian'' ''endianness'')
         else
           let data = (if endian \<noteq> ENDIAN then Buffer_from pool (reverse (buffer_bytes data))
                       else data)
           in Inr (fromBuffer_read ENDIAN data))"

definition fromArrayLike :: "nat list \<Rightarrow> string option \<Rightarrow> js_error + int" where
  "fromArrayLike data endian0 =
     (let endian = (case endian0 of None \<Rightarrow> ''be'' | Some e \<Rightarrow> e)
      in if \<not> endian_ok endian then Inl (enforce_err ''endian'' ''endianness'')
         else if length data \<le> 0 then Inr 0
         else if endian = ''be'' then
           Inr (foldl (\<lambda>n i. push_bit 8 n OR int (data ! i)) 0 [0..<length data])
         else
           Inr (foldl (\<lambda>n i. push_bit 8 n OR int (data ! i)) 0 (rev [0..<length data])))"

lemma hexval_hexchar: "d < 16 \<Longrightarrow> hexval (hexchar d) = Some d"
proof -
  assume d: "d < 16"
  have a: "(48 + d) mod 256 = 48 + d" and b: "(87 + d) mod 256 = 87 + d"
    using d by simp_all
  show ?thesis
    using d by (auto simp: hexval_def hexchar_def Let_def a b)
qed

lemma toString16_hex: "list_all (\<lambda>c. hexval c \<noteq> None) (toString16 k)"
proof (induction k rule: toString16.induct)
  case (1 k)
  show ?case
  proof (cases "k < 16")
    case True
    then show ?thesis
      by (subst toString16.simps) (simp add: hexval_hexchar)
  next
    case False
    have "k mod 16 < 16" by simp
    then have "hexval (hexchar (k mod 16)) \<noteq> None"
      by (simp add: hexval_hexchar)
    with "1.IH" [OF False] False show ?thesis
      by (subst toString16.simps) simp
  qed
qed

lemma toString16_nonempty: "toString16 k \<noteq> []"
  by (subst toString16.simps) simp

lemma hex_decode_length:
  "list_all (\<lambda>c. hexval c \<noteq> None) s \<Longrightarrow> length (hex_decode s) = length s div 2"
  by (induction s rule: hex_decode.induct) auto

lemma reverse_loop_length: "length (reverse_loop data i j) = length data"
proof (induction data i j rule: reverse_loop.induct)
  case (1 data i j)
  show ?case
  proof (cases "j < i")
    case True
    with "1.IH" [OF True] show ?thesis
      by (subst reverse_loop.simps) simp
  next
    case False
    then show ?thesis
      by (subst reverse_loop.simps) simp
  qed
qed

lemma reverse_length: "length (reverse data) = length data"
  by (simp add: reverse_def reverse_loop_length)

lemma reverse_single: "reverse [v] = [v]"
  by (simp add: reverse_def reverse_loop.simps)

lemma toBuffer_at_least_one_byte:
  assumes "endian0 = None \<or> endian0 = Some ''be'' \<or> endian0 = Some ''le''"
    and "length0 = None \<or> length0 = Some 0"
  shows "\<exists>bs. toBuffer n endian0 length0 = Inr bs \<and> 1 \<le> length bs"
proof -
  define str0 where "str0 = toString16 (nat (abs_bn n))"
  define str where "str = (if odd (length str0) then CHR ''0'' # str0 else str0)"
  have hex0: "list_all (\<lambda>c. hexval c \<noteq> None) str0"
    unfolding str0_def by (rule toString16_hex)
  have "hexval CHR ''0'' \<noteq> None"
    by (simp add: hexval_def)
  with hex0 have hex: "list_all (\<lambda>c. hexval c \<noteq> None) str"
    by (simp add: str_def)
  have ne: "str0 \<noteq> []"
    unfolding str0_def by (rule toString16_nonempty)
  have ev: "even (length str)"
    by (simp add: str_def)
  have pos: "0 < length str"
    using ne by (simp add: str_def)
  have two: "2 \<le> length str"
  proof (rule ccontr)
    assume "\<not> 2 \<le> length str"
    with pos have "length str = 1" by linarith
    with ev show False by simp
  qed
  then have bytes: "1 \<le> length str div 2"
    by simp
  have pad: "padStart str (nat (int (length str div 2) * 2)) ''00'' = str"
    using ev by (simp add: padStart_def)
  define out where "out = hex_decode str"
  have len: "length out = length str div 2"
    unfolding out_def by (rule hex_decode_length [OF hex])
  have e: "toBuffer n endian0 length0
      = Inr (if (case endian0 of None \<Rightarrow> ''be'' | Some e \<Rightarrow> e) = ''le'' then reverse out else out)"
    using assms bytes pad
    by (auto simp: toBuffer_def endian_ok_def Let_def str0_def [symmetric] str_def [symmetric]
        out_def max_def)
  show ?thesis
    unfolding e using len bytes by (simp add: reverse_length)
qed

lemma toBuffer_zero:
  "toBuffer 0 None None = Inr [0]" "toBuffer 0 (Some ''be'') None = Inr [0]"
  "toBuffer 0 (Some ''le'') None = Inr [0]"
  by (simp_all add: toBuffer_def endian_ok_def abs_bn_def toString16.simps hexchar_def
      padStart_def hexval_def reverse_single)

lemma store_at_length: "length (store_at res i v) = length res"
  by (simp add: store_at_def)

lemma tal_be_loop_length: "length (fst (tal_be_loop res i q)) = length res"
proof (induction res i q rule: tal_be_loop.induct)
  case (1 res i q)
  show ?case
  proof (cases "0 < q")
    case True
    with "1.IH" [OF True] show ?thesis
      by (subst tal_be_loop.simps) (simp add: store_at_length)
  next
    case False
    then show ?thesis
      by (subst tal_be_loop.simps) simp
  qed
qed

lemma tal_le_loop_length: "length (fst (tal_le_loop res i q)) = length res"
proof (induction res i q rule: tal_le_loop.induct)
  case (1 res i q)
  show ?case
  proof (cases "0 < q")
    case True
    with "1.IH" [OF True] show ?thesis
      by (subst tal_le_loop.simps) (simp add: store_at_length)
  next
    case False
    then show ?thesis
      by (subst tal_le_loop.simps) simp
  qed
qed

lemma fill_down_length: "length (fill_down res i) = length res"
proof (induction res i rule: fill_down.induct)
  case (1 res i)
  show ?case
  proof (cases "0 \<le> i")
    case True
    with "1.IH" [OF True] show ?thesis
      by (subst fill_down.simps) (simp add: store_at_length)
  next
    case False
    then show ?thesis
      by (subst fill_down.simps) simp
  qed
qed

lemma fill_up_length: "length (fill_up res i sz) = length res"
proof (induction res i sz rule: fill_up.induct)
  case (1 res i sz)
  show ?case
  proof (cases "i < sz")
    case True
    with "1.IH" [OF True] show ?thesis
      by (subst fill_up.simps) (simp add: store_at_length)
  next
    case False
    then show ?thesis
      by (subst fill_up.simps) simp
  qed
qed

lemma toArrayLike_at_least_one_byte:
  assumes "endian0 = None \<or> endian0 = Some ''be'' \<or> endian0 = Some ''le''"
    and "length0 = None \<or> length0 = Some 0"
  shows "\<exists>bs. toArrayLike n uninit endian0 length0 = Inr bs \<and> 1 \<le> length bs"
proof -
  define sz where "sz = max 1 (byteLength n)"
  define res where "res = allocate uninit sz"
  have sz: "1 \<le> sz" "\<not> sz < byteLength n"
    by (simp_all add: sz_def)
  have len: "length res = nat sz"
    by (simp add: res_def allocate_def)
  have be: "length (fill_down (fst (tal_be_loop res (sz - 1) (abs_bn n)))
      (snd (tal_be_loop res (sz - 1) (abs_bn n)))) = nat sz"
    by (simp add: fill_down_length tal_be_loop_length len)
  have le: "length (fill_up (fst (tal_le_loop res 0 (abs_bn n)))
      (snd (tal_le_loop res 0 (abs_bn n))) sz) = nat sz"
    by (simp add: fill_up_length tal_le_loop_length len)
  have "1 \<le> nat sz" using sz by simp
  with be le show ?thesis
    using assms sz
    by (auto simp: toArrayLike_def endian_ok_def Let_def sz_def [symmetric] res_def [symmetric]
        split_beta)
qed

lemma byteLength_zero: "byteLength 0 = 0"
  by (simp add: byteLength_def countWords_def)

lemma toArrayLike_zero:
  "toArrayLike 0 uninit None None = Inr [0]" "toArrayLike 0 uninit (Some ''be'') None = Inr [0]"
  "toArrayLike 0 uninit (Some ''le'') None = Inr [0]"
  by (simp_all add: toArrayLike_def endian_ok_def byteLength_zero abs_bn_def allocate_def
      tal_be_loop.simps tal_le_loop.simps fill_down.simps fill_up.simps store_at_def)

lemma fromArrayLike_zero:
  "fromArrayLike [0] None = Inr 0" "fromArrayLike [0] (Some ''be'') = Inr 0"
  "fromArrayLike [0] (Some ''le'') = Inr 0"
  by (simp_all add: fromArrayLike_def endian_ok_def)

lemma read_bytes_bound:
  "0 \<le> n \<Longrightarrow> n < 2 ^ m \<Longrightarrow> \<forall>i\<in>set idx. data_at data i < 256 \<Longrightarrow>
   0 \<le> read_bytes data n idx \<and> read_bytes data n idx < 2 ^ (m + 8 * length idx)"
proof (induction idx arbitrary: n m)
  case Nil
  then show ?case by (simp add: read_bytes_def)
next
  case (Cons i idx)
  define n1 where "n1 = push_bit 8 n OR data_at data i"
  have b: "0 \<le> data_at data i" "data_at data i < 256"
    using Cons.prems(3) by (simp_all add: data_at_def)
  have s: "0 \<le> push_bit 8 n" "push_bit 8 n < 2 ^ (m + 8)"
    using Cons.prems(1,2) by (simp_all add: push_bit_eq_mult power_add)
  have "data_at data i < 2 ^ (m + 8)"
  proof -
    have "(256::int) = 2 ^ 8" by simp
    also have "\<dots> \<le> 2 ^ (m + 8)" by (intro power_increasing) simp_all
    finally show ?thesis using b(2) by simp
  qed
  with s have n1: "0 \<le> n1" "n1 < 2 ^ (m + 8)"
    using b(1) by (simp_all add: n1_def OR_upper)
  have "0 \<le> read_bytes data n1 idx \<and> read_bytes data n1 idx < 2 ^ (m + 8 + 8 * length idx)"
    by (rule Cons.IH [OF n1]) (use Cons.prems(3) in simp)
  moreover have "read_bytes data n (i # idx) = read_bytes data n1 idx"
    by (simp add: read_bytes_def n1_def)
  ultimately show ?case by (simp add: add.assoc add.commute)
qed

lemma word_le_bound:
  "\<forall>b\<in>set bs. 0 \<le> b \<and> b < 256 \<Longrightarrow>
   0 \<le> foldr (\<lambda>b a. b + 256 * a) bs (0::int) \<and> foldr (\<lambda>b a. b + 256 * a) bs 0 < 256 ^ length bs"
  by (induction bs) auto

lemma zero_buffer_facts:
  assumes "buffer_ok d" and "buffer_bytes d = [0]"
  shows "buf_length d = 1" and "buf_mem d ! byteOffset d = 0"
    and "byteOffset d < length (buf_mem d)"
proof -
  from assms(2) have "length (buffer_bytes d) = 1" by simp
  then have m: "min (buf_length d) (length (buf_mem d) - byteOffset d) = 1"
    by (simp add: buffer_bytes_def)
  with assms(1) show l: "buf_length d = 1"
    by (simp add: buffer_ok_def min_def split: if_splits)
  with assms(1) show r: "byteOffset d < length (buf_mem d)"
    by (simp add: buffer_ok_def)
  have "buffer_bytes d ! 0 = buf_mem d ! (byteOffset d + 0)"
    unfolding buffer_bytes_def using l r by (simp add: nth_drop)
  with assms(2) show "buf_mem d ! byteOffset d = 0" by simp
qed

lemma fromBuffer_read_zero:
  assumes ok: "buffer_ok d" and z: "buffer_bytes d = [0]"
  shows "fromBuffer_read E d = 0"
proof -
  define off where "off = byteOffset d"
  define mem where "mem = buf_mem d"
  define u where "u = off mod 8"
  note f = zero_buffer_facts [OF ok z, folded off_def mem_def]
  have bytes: "list_all (\<lambda>v. v < 256) mem"
    using ok by (simp add: buffer_ok_def mem_def)
  show ?thesis
  proof (cases "u = 0")
    case True
    have "data_at d 0 = 0"
      using f(2) by (simp add: data_at_def off_def mem_def)
    then show ?thesis
      using True f(1)
      by (simp add: fromBuffer_read_def Let_def u_def off_def read_bytes_def read_words_def)
  next
    case False
    define v where "v = Buffer_view d (off - u) (u + 1)"
    have ule: "u \<le> off" "u < 8"
      by (simp_all add: u_def)
    have vlen: "buf_length v = u + 1" and voff: "byteOffset v = off - u" and vmem: "buf_mem v = mem"
      by (simp_all add: v_def Buffer_view_def mem_def)
    have at: "data_at v i = int (mem ! (off - u + i))" for i
      by (simp add: data_at_def voff vmem)
    have last0: "data_at v u = 0"
      using ule f(2) by (simp add: at)
    have small: "data_at v i < 256" if "i \<le> u" for i
    proof -
      have "off - u + i < length mem"
        using that ule f(3) by simp
      with bytes show ?thesis
        by (simp add: at list_all_length)
    qed
    have un: "byteOffset d mod 8 = u" and cond: "(u = 0) = False"
      and view: "Buffer_view d (byteOffset d - u) (u + buf_length d) = v"
      using False by (simp_all add: u_def off_def v_def f(1))
    have e: "fromBuffer_read E d =
       (if E = ''be'' then
          read_bytes v (read_words E v 0 [0..<(u + 1) div 8]) [u + 1 - (u + 1) mod 8..<u + 1]
            AND mask_bn (int ((u + 1 - u) * 8))
        else
          bigint_shr
            (read_words E v (read_bytes v 0 (rev [u + 1 - (u + 1) mod 8..<u + 1]))
               (rev [0..<(u + 1) div 8]))
            (int (u * 8)))"
      by (simp only: fromBuffer_read_def Let_def un cond not_False_eq_True if_True view vlen)
    have m8: "mask_bn (int ((u + 1 - u) * 8)) = mask 8" "mask_bn 8 = mask 8"
      by (simp_all add: mask_bn_def bigint_shl_def mask_eq_exp_minus_1 push_bit_eq_mult)
    show ?thesis
    proof (cases "u = 7")
      case seven: True
      have idx: "(u + 1) div 8 = 1" "(u + 1) mod 8 = 0"
        by (simp_all add: seven)
      define g where "g = (\<lambda>k. data_at v k)"
      have upt8: "[0..<8] = [0..<7] @ [7::nat]"
        by (simp add: upt_rec)
      have g7: "g 7 = 0"
        using last0 by (simp add: g_def seven)
      show ?thesis
      proof (cases "E = ''be''")
        case True
        have w: "word64_at ''be'' v 0 = foldl (\<lambda>a b. a * 256 + b) 0 (map g [0..<7]) * 256"
          by (simp add: word64_at_def g_def [symmetric] upt8 g7 del: upt_Suc)
        have "(x * 256) AND mask 8 = 0" for x :: int
          by (simp add: take_bit_eq_mask [symmetric] take_bit_eq_mod)
        then show ?thesis
          unfolding e using True by (simp add: idx m8 read_words_def read_bytes_def w seven)
      next
        case False
        have w: "word64_at E v 0 = foldr (\<lambda>b a. b + 256 * a) (map g [0..<7]) 0"
          using False by (simp add: word64_at_def g_def [symmetric] upt8 g7 del: upt_Suc)
        have "\<forall>b\<in>set (map g [0..<7]). 0 \<le> b \<and> b < 256"
          using small by (auto simp: g_def seven data_at_def)
        from word_le_bound [OF this]
        have "0 \<le> word64_at E v 0" "word64_at E v 0 < 2 ^ 56"
          by (simp_all add: w)
        then have "word64_at E v 0 div 2 ^ 56 = 0"
          by (simp add: div_pos_pos_trivial)
        then show ?thesis
          unfolding e using False
          by (simp add: idx read_words_def read_bytes_def seven bigint_shr_def drop_bit_eq_div)
      qed
    next
      case False
      with ule \<open>u \<noteq> 0\<close> have u6: "u + 1 < 8" by simp
      then have idx: "(u + 1) div 8 = 0" "(u + 1) mod 8 = u + 1"
          "Suc u div 8 = 0" "Suc u mod 8 = Suc u"
        by simp_all
      show ?thesis
      proof (cases "E = ''be''")
        case True
        have "read_bytes v 0 [0..<u + 1] = push_bit 8 (read_bytes v 0 [0..<u])"
          by (simp add: read_bytes_def last0)
        moreover have "push_bit 8 x AND mask 8 = 0" for x :: int
          by (simp add: take_bit_eq_mask [symmetric] take_bit_push_bit)
        ultimately show ?thesis
          unfolding e using True by (simp add: idx m8 read_words_def del: upt_Suc)
      next
        case False
        have r: "read_bytes v 0 (rev [0..<Suc u]) = read_bytes v 0 (rev [0..<u])"
          by (simp add: read_bytes_def last0)
        have nu: "nat (int u * 8) = u * 8"
          by (simp add: nat_mult_distrib)
        have "0 \<le> read_bytes v 0 (rev [0..<u]) \<and> read_bytes v 0 (rev [0..<u]) < 2 ^ (0 + 8 * length (rev [0..<u]))"
          by (rule read_bytes_bound) (use small in auto)
        then have "read_bytes v 0 (rev [0..<u]) div 2 ^ (u * 8) = 0"
          by (simp add: div_pos_pos_trivial mult.commute)
        then show ?thesis
          unfolding e using False
          by (simp add: idx r nu read_words_def bigint_shr_def drop_bit_eq_div del: upt_Suc)
      qed
    qed
  qed
qed

lemma fromBuffer_zero:
  assumes "buffer_ok data" and "buffer_bytes data = [0]" and "list_all (\<lambda>v. v < 256) pool"
    and "endian0 = None \<or> endian0 = Some ''be'' \<or> endian0 = Some ''le''"
  shows "fromBuffer E pool data endian0 = Inr 0"
proof -
  define copy where "copy = Buffer_from pool (reverse (buffer_bytes data))"
  have "copy = Buffer_from pool [0]"
    by (simp add: copy_def assms(2) reverse_single)
  then have "buffer_ok copy" "buffer_bytes copy = [0]"
    using assms(3) by (simp_all add: Buffer_from_def buffer_ok_def buffer_bytes_def)
  then have "fromBuffer_read E copy = 0"
    by (rule fromBuffer_read_zero)
  moreover have "fromBuffer_read E data = 0"
    by (rule fromBuffer_read_zero [OF assms(1,2)])
  ultimately show ?thesis
    using assms(4) by (auto simp: fromBuffer_def endian_ok_def Let_def copy_def [symmetric])
qed

subsection \<open>The conversion methods of a big number\<close>

datatype array_type = Buffer | Array | Int8Array | Uint8Array | Uint8ClampedArray | OtherArray

definition BN_toBuffer :: "BN \<Rightarrow> string option \<Rightarrow> int option \<Rightarrow> js_error + nat list" where
  "BN_toBuffer this endian len = toBuffer (bn_n this) endian len"

definition BN_toArray :: "BN \<Rightarrow> string option \<Rightarrow> int option \<Rightarrow> js_error + nat list" where
  "BN_toArray this endian len = BN_toBuffer this endian len"

definition BN_toArrayLike ::
  "BN \<Rightarrow> array_type \<Rightarrow> (nat \<Rightarrow> nat) \<Rightarrow> string option \<Rightarrow> int option \<Rightarrow> js_error + nat list" where
  "BN_toArrayLike this ArrayType uninit endian len =
     (if ArrayType = Buffer then BN_toBuffer this endian len
      else if ArrayType = Array then BN_toArray this endian len
      else if ArrayType = Int8Array \<or> ArrayType = Uint8Array \<or> ArrayType = Uint8ClampedArray
        then BN_toBuffer this endian len
      else toArrayLike (bn_n this) uninit endian len)"

definition BN_fromBuffer ::
  "BN \<Rightarrow> string \<Rightarrow> nat list \<Rightarrow> buffer \<Rightarrow> string option \<Rightarrow> js_error + BN" where
  "BN_fromBuffer this ENDIAN pool data endian =
     (case fromBuffer ENDIAN pool data endian of
        Inl e \<Rightarrow> Inl e
      | Inr v \<Rightarrow> Inr (this\<lparr>bn_n := v\<rparr>))"

definition BN_fromArray :: "BN \<Rightarrow> nat list \<Rightarrow> string option \<Rightarrow> js_error + BN" where
  "BN_fromArray this data endian =
     (case fromArrayLike data endian of
        Inl e \<Rightarrow> Inl e
      | Inr v \<Rightarrow> Inr (this\<lparr>bn_n := v\<rparr>))"

lemma BN_toArrayLike_at_least_one_byte:
  assumes "endian = None \<or> endian = Some ''be'' \<or> endian = Some ''le''"
  shows "\<exists>bs. BN_toArrayLike this ArrayType uninit endian None = Inr bs \<and> 1 \<le> length bs"
  using toBuffer_at_least_one_byte [OF assms, of None "bn_n this"]
    toArrayLike_at_least_one_byte [OF assms, of None "bn_n this" uninit]
  by (simp add: BN_toArrayLike_def BN_toBuffer_def BN_toArray_def)

text \<open>
  C10 (zero is one byte). Serialization with no explicit length yields at least one byte,
  through \<open>toBuffer\<close> and through \<open>toArrayLike\<close>, in both byte orders; zero serializes to
  the single byte \<open>0x00\<close>; and reading that byte back gives zero: through \<open>fromArrayLike\<close>,
  and through \<open>fromBuffer\<close> for every buffer holding that byte, wherever it lies in its
  \<open>ArrayBuffer\<close>, on a machine of either byte order.
\<close>

theorem zero_serializes_to_one_byte:
  assumes "endian = None \<or> endian = Some ''be'' \<or> endian = Some ''le''"
  shows "(\<exists>bs. toBuffer n endian None = Inr bs \<and> 1 \<le> length bs) \<and>
         (\<exists>bs. toArrayLike n uninit endian None = Inr bs \<and> 1 \<le> length bs) \<and>
         toBuffer 0 endian None = Inr [0] \<and>
         toArrayLike 0 uninit endian None = Inr [0] \<and>
         fromArrayLike [0] endian = Inr 0 \<and>
         (\<forall>data. buffer_ok data \<and> buffer_bytes data = [0] \<and> list_all (\<lambda>v. v < 256) pool \<longrightarrow>
            fromBuffer ENDIAN pool data endian = Inr 0)"
proof -
  have a: "\<exists>bs. toBuffer n endian None = Inr bs \<and> 1 \<le> length bs"
    by (rule toBuffer_at_least_one_byte [OF assms]) simp
  have b: "\<exists>bs. toArrayLike n uninit endian None = Inr bs \<and> 1 \<le> length bs"
    by (rule toArrayLike_at_least_one_byte [OF assms]) simp
  have c: "toBuffer 0 endian None = Inr [0]"
    using assms toBuffer_zero by auto
  have d: "toArrayLike 0 uninit endian None = Inr [0]"
    using assms toArrayLike_zero [of uninit] by auto
  have e: "fromArrayLike [0] endian = Inr 0"
    using assms fromArrayLike_zero by auto
  have f: "\<forall>data. buffer_ok data \<and> buffer_bytes data = [0] \<and> list_all (\<lambda>v. v < 256) pool \<longrightarrow>
            fromBuffer ENDIAN pool data endian = Inr 0"
    using fromBuffer_zero [OF _ _ _ assms] by blast
  from a b c d e f show ?thesis by blast
qed

theorem zero_serializes_to_one_byte_witness:
  "(\<exists>bs. toBuffer 258 (Some ''le'') None = Inr bs \<and> 1 \<le> length bs) \<and>
   toBuffer 0 (Some ''le'') None = Inr [0] \<and>
   fromBuffer ''le'' [] \<lparr>buf_mem = [7, 0, 9], byteOffset = 1, buf_length = 1\<rparr> (Some ''le'') = Inr 0"
proof -
  have ok: "buffer_ok \<lparr>buf_mem = [7, 0, 9], byteOffset = 1, buf_length = 1\<rparr> \<and>
      buffer_bytes \<lparr>buf_mem = [7, 0, 9], byteOffset = 1, buf_length = 1\<rparr> = [0] \<and>
      list_all (\<lambda>v. v < 256) ([] :: nat list)"
    by (simp add: buffer_ok_def buffer_bytes_def)
  from zero_serializes_to_one_byte [of "Some ''le''" 258 "\<lambda>_. 0" "[]" "''le''"] ok
  show ?thesis by blast
qed

section \<open>Square roots modulo a prime\<close>

subsection \<open>The function \<open>sqrtm\<close>\<close>

text \<open>\<open>while (jacobi(n, p) !== -1) n += 1n\<close>\<close>

partial_function (option) nonresidue_search :: "int \<Rightarrow> int \<Rightarrow> (js_error + int) option" where
  "nonresidue_search n p =
     (case jacobi n p of
        Inl err \<Rightarrow> Some (Inl err)
      | Inr j \<Rightarrow> if j \<noteq> - 1 then nonresidue_search (n + 1) p else Some (Inr n))"

text \<open>\<open>while (t !== 1n) { t = (t ** 2n) % p; m += 1n; }\<close>\<close>

partial_function (option) order_loop :: "int \<Rightarrow> int \<Rightarrow> int \<Rightarrow> int option" where
  "order_loop t m p =
     (if t \<noteq> 1 then order_loop (bigint_rem (t ^ 2) p) (m + 1) p else Some m)"

text \<open>The \<open>for (;;)\<close> loop of \<open>sqrtm\<close>.\<close>

partial_function (option) sqrtm_loop ::
  "int \<Rightarrow> int \<Rightarrow> int \<Rightarrow> int \<Rightarrow> int \<Rightarrow> (js_error + int) option" where
  "sqrtm_loop y b g k p =
     Option.bind (order_loop b 0 p) (\<lambda>m.
       if m = 0 then Some (Inr y)
       else if \<not> m \<noteq> k then Some (Inl assert_err)
       else case powm g (bigint_shl 1 (k - m - 1)) p of
              Inl err \<Rightarrow> Some (Inl err)
            | Inr t \<Rightarrow>
                let g = bigint_rem (t ^ 2) p;
                    y = bigint_rem (y * t) p;
                    b = bigint_rem (b * g) p
                in sqrtm_loop y b g m p)"

declare nonresidue_search.simps [code]
declare order_loop.simps [code]
declare sqrtm_loop.simps [code]

text \<open>\<open>sqrtm(x, p)\<close>; the result is \<open>None\<close> when one of the loops does not end.\<close>

definition sqrtm :: "int \<Rightarrow> int \<Rightarrow> (js_error + int) option" where
  "sqrtm x p =
     (if \<not> 0 < p then Some (Inl assert_err)
      else case jacobi x p of
        Inl err \<Rightarrow> Some (Inl err)
      | Inr j \<Rightarrow>
        if j = - 1 then Some (Inl (Error ''X is not a square mod P.''))
        else if j = 0 then Some (Inr 0)
        else case (if x < 0 \<or> p \<le> x then mod_bn x p else Inr x) of
          Inl err \<Rightarrow> Some (Inl err)
        | Inr x \<Rightarrow>
          if p AND 3 = 3 then
            (let e = bigint_shr (p + 1) 2 in Some (powm x e p))
          else if p AND 7 = 5 then
            (let e = bigint_shr p 3;
                 t = bigint_shl x 1
             in case powm t e p of
               Inl err \<Rightarrow> Some (Inl err)
             | Inr a \<Rightarrow>
                 let b = bigint_rem (a ^ 2) p;
                     b = bigint_rem (b * t) p
                 in case mod_bn (b - 1) p of
                   Inl err \<Rightarrow> Some (Inl err)
                 | Inr b \<Rightarrow>
                     let b = bigint_rem (b * x) p;
                         b = bigint_rem (b * a) p
                     in Some (Inr b))
          else
            (let s = p - 1;
                 e = zeroBits s;
                 s = bigint_shr s e
             in Option.bind (nonresidue_search 2 p) (\<lambda>found.
               case found of
                 Inl err \<Rightarrow> Some (Inl err)
               | Inr n \<Rightarrow>
                 (case powm x (bigint_shr (s + 1) 1) p of
                    Inl err \<Rightarrow> Some (Inl err)
                  | Inr y \<Rightarrow>
                    (case powm x s p of
                       Inl err \<Rightarrow> Some (Inl err)
                     | Inr b \<Rightarrow>
                       (case powm n s p of
                          Inl err \<Rightarrow> Some (Inl err)
                        | Inr g \<Rightarrow> sqrtm_loop y b g e p))))))"

subsection \<open>Quadratic symbol by counting residues\<close>

text \<open>
  For an odd modulus \<open>n\<close> and \<open>a\<close> coprime to it, every product \<open>a * k\<close> with \<open>k\<close> in the
  lower half \<open>1..(n - 1) div 2\<close> is congruent to \<open>eps * fold\<close>, a sign times an element of
  the lower half. The symbol \<open>qsym a n\<close> is the product of the signs.
\<close>

definition half :: "int \<Rightarrow> int" where
  "half n = (n - 1) div 2"

definition eps :: "int \<Rightarrow> int \<Rightarrow> int \<Rightarrow> int" where
  "eps a n k = (if half n < (a * k) mod n then - 1 else 1)"

definition fold_half :: "int \<Rightarrow> int \<Rightarrow> int \<Rightarrow> int" where
  "fold_half a n k = (if half n < (a * k) mod n then n - (a * k) mod n else (a * k) mod n)"

definition qsym :: "int \<Rightarrow> int \<Rightarrow> int" where
  "qsym a n = (\<Prod>k\<in>{1..half n}. eps a n k)"

lemma odd_half: "odd n \<Longrightarrow> n = 2 * half n + 1"
  by (auto simp: half_def elim!: oddE)

lemma eps_cases: "eps a n k = 1 \<or> eps a n k = - 1"
  by (simp add: eps_def)

lemma eps_square: "eps a n k * eps a n k = 1"
  using eps_cases [of a n k] by auto

lemma residue_nonzero:
  assumes "coprime a n" and "1 \<le> k" and "k \<le> half n" and "odd n" and "0 < n"
  shows "(a * k) mod n \<noteq> 0"
proof
  assume "(a * k) mod n = 0"
  then have "n dvd a * k" by (simp add: mod_eq_0_iff_dvd)
  then have "n dvd k"
    using assms(1) by (simp add: coprime_commute coprime_dvd_mult_right_iff)
  then have "n \<le> k"
    using assms(2) by (intro zdvd_imp_le) simp_all
  moreover have "k < n"
    using odd_half [OF assms(4)] assms(3) assms(2) by linarith
  ultimately show False by simp
qed

lemma fold_half_range:
  assumes "coprime a n" and "1 \<le> k" and "k \<le> half n" and "odd n" and "0 < n"
  shows "1 \<le> fold_half a n k \<and> fold_half a n k \<le> half n"
proof -
  have nz: "(a * k) mod n \<noteq> 0"
    by (rule residue_nonzero [OF assms])
  have "0 \<le> (a * k) mod n" "(a * k) mod n < n"
    using assms(5) by simp_all
  with nz have r: "1 \<le> (a * k) mod n" "(a * k) mod n < n" by linarith+
  show ?thesis
    using r odd_half [OF assms(4)] by (auto simp: fold_half_def)
qed

lemma eps_fold_cong: "n dvd a * k - eps a n k * fold_half a n k"
proof -
  have "n dvd a * k - (a * k) mod n"
    by (simp add: mod_eq_dvd_iff [symmetric])
  moreover have "a * k - eps a n k * fold_half a n k =
      (if half n < (a * k) mod n then (a * k - (a * k) mod n) + n else a * k - (a * k) mod n)"
    by (simp add: eps_def fold_half_def)
  ultimately show ?thesis
    by (simp add: dvd_add)
qed

lemma sign_dvd_cancel:
  fixes s z n :: int
  shows "s = 1 \<or> s = - 1 \<Longrightarrow> n dvd s * z \<Longrightarrow> n dvd z"
  by auto

lemma signed_half_unique:
  fixes x y s t n :: int
  assumes "odd n" and "1 \<le> x" and "x \<le> half n" and "1 \<le> y" and "y \<le> half n"
    and "s = 1 \<or> s = - 1" and "t = 1 \<or> t = - 1" and "n dvd s * x - t * y"
  shows "x = y \<and> s = t"
proof -
  have n: "n = 2 * half n + 1" by (rule odd_half [OF assms(1)])
  have small: "n dvd z \<Longrightarrow> \<bar>z\<bar> < n \<Longrightarrow> z = 0" for z :: int
    using zdvd_not_zless [of "\<bar>z\<bar>" n] by (cases "z = 0") auto
  show ?thesis
  proof (cases "s = t")
    case True
    then have "s * x - t * y = s * (x - y)" by (simp add: algebra_simps)
    with assms(8) have "n dvd s * (x - y)" by simp
    then have "n dvd x - y"
      by (rule sign_dvd_cancel [OF assms(6)])
    moreover have "\<bar>x - y\<bar> < n"
      using n assms(2-5) by linarith
    ultimately have "x - y = 0" by (rule small)
    with True show ?thesis by simp
  next
    case False
    with assms(6,7) have "s * x - t * y = s * (x + y)"
      by (auto simp: algebra_simps)
    with assms(8) have "n dvd s * (x + y)" by simp
    then have "n dvd x + y"
      by (rule sign_dvd_cancel [OF assms(6)])
    moreover have "\<bar>x + y\<bar> < n"
      using n assms(2-5) by linarith
    ultimately have "x + y = 0" by (rule small)
    with assms(2,4) show ?thesis by linarith
  qed
qed

lemma fold_half_inj:
  assumes "coprime a n" and "odd n" and "0 < n"
  shows "inj_on (fold_half a n) {1..half n}"
proof (rule inj_onI)
  fix k k' assume k: "k \<in> {1..half n}" and k': "k' \<in> {1..half n}"
    and e: "fold_half a n k = fold_half a n k'"
  define f where "f = fold_half a n k"
  have c1: "n dvd a * k - eps a n k * f"
    unfolding f_def by (rule eps_fold_cong)
  have c2: "n dvd a * k' - eps a n k' * f"
    unfolding f_def e by (rule eps_fold_cong)
  have "n dvd eps a n k * (a * k - eps a n k * f) - eps a n k' * (a * k' - eps a n k' * f)"
    by (intro dvd_diff dvd_mult c1 c2)
  moreover have "eps a n k * (a * k - eps a n k * f) - eps a n k' * (a * k' - eps a n k' * f)
      = a * (eps a n k * k - eps a n k' * k') - (eps a n k * eps a n k) * f + (eps a n k' * eps a n k') * f"
    by (simp add: algebra_simps)
  ultimately have "n dvd a * (eps a n k * k - eps a n k' * k')"
    by (simp add: eps_square)
  then have "n dvd eps a n k * k - eps a n k' * k'"
    using assms(1) by (simp add: coprime_commute coprime_dvd_mult_right_iff)
  then have "k = k' \<and> eps a n k = eps a n k'"
    using k k' by (intro signed_half_unique [OF assms(2)]) (simp_all add: eps_cases)
  then show "k = k'" by simp
qed

lemma fold_half_bij:
  assumes "coprime a n" and "odd n" and "0 < n"
  shows "bij_betw (fold_half a n) {1..half n} {1..half n}"
proof -
  have "fold_half a n ` {1..half n} \<subseteq> {1..half n}"
    using fold_half_range [OF assms(1) _ _ assms(2,3)] by auto
  then have "fold_half a n ` {1..half n} = {1..half n}"
    by (intro endo_inj_surj fold_half_inj [OF assms]) simp_all
  with fold_half_inj [OF assms] show ?thesis
    by (simp add: bij_betw_def)
qed

lemma eps_mult:
  assumes "coprime a n" and "coprime b n" and "odd n" and "0 < n"
    and "1 \<le> k" and "k \<le> half n"
  shows "eps (a * b) n k = eps b n k * eps a n (fold_half b n k)"
proof -
  define j where "j = fold_half b n k"
  have j: "1 \<le> j" "j \<le> half n"
    using fold_half_range [OF assms(2,5,6,3,4)] by (simp_all add: j_def)
  have ab: "coprime (a * b) n"
    using assms(1,2) by simp
  have c1: "n dvd a * b * k - eps (a * b) n k * fold_half (a * b) n k"
    by (rule eps_fold_cong)
  have c2: "n dvd b * k - eps b n k * j"
    unfolding j_def by (rule eps_fold_cong)
  have c3: "n dvd a * j - eps a n j * fold_half a n j"
    by (rule eps_fold_cong)
  have "n dvd a * (b * k - eps b n k * j) + eps b n k * (a * j - eps a n j * fold_half a n j)"
    by (intro dvd_add dvd_mult c2 c3)
  moreover have "a * (b * k - eps b n k * j) + eps b n k * (a * j - eps a n j * fold_half a n j)
      = a * b * k - (eps b n k * eps a n j) * fold_half a n j"
    by (simp add: algebra_simps)
  ultimately have c4: "n dvd a * b * k - (eps b n k * eps a n j) * fold_half a n j"
    by simp
  have "n dvd (a * b * k - (eps b n k * eps a n j) * fold_half a n j)
      - (a * b * k - eps (a * b) n k * fold_half (a * b) n k)"
    by (intro dvd_diff c4 c1)
  then have c5: "n dvd eps (a * b) n k * fold_half (a * b) n k - (eps b n k * eps a n j) * fold_half a n j"
    by (simp add: algebra_simps)
  have s: "eps b n k * eps a n j = 1 \<or> eps b n k * eps a n j = - 1"
    using eps_cases [of b n k] eps_cases [of a n j] by auto
  have "fold_half (a * b) n k = fold_half a n j \<and> eps (a * b) n k = eps b n k * eps a n j"
    using fold_half_range [OF ab assms(5,6,3,4)] fold_half_range [OF assms(1) j assms(3,4)]
    by (intro signed_half_unique [OF assms(3) _ _ _ _ eps_cases s c5]) simp_all
  then show ?thesis by (simp add: j_def)
qed

lemma qsym_mult:
  assumes "coprime a n" and "coprime b n" and "odd n" and "0 < n"
  shows "qsym (a * b) n = qsym a n * qsym b n"
proof -
  have "qsym (a * b) n = (\<Prod>k\<in>{1..half n}. eps b n k * eps a n (fold_half b n k))"
    unfolding qsym_def by (intro prod.cong refl eps_mult [OF assms]) simp_all
  also have "\<dots> = (\<Prod>k\<in>{1..half n}. eps b n k) * (\<Prod>k\<in>{1..half n}. eps a n (fold_half b n k))"
    by (rule prod.distrib)
  also have "(\<Prod>k\<in>{1..half n}. eps a n (fold_half b n k)) = (\<Prod>j\<in>{1..half n}. eps a n j)"
    by (rule prod.reindex_bij_betw [OF fold_half_bij [OF assms(2,3,4)]])
  finally show ?thesis
    by (simp add: qsym_def mult.commute)
qed

lemma qsym_mod: "qsym (a mod n) n = qsym a n"
  by (simp add: qsym_def eps_def mod_mult_left_eq)

lemma qsym_cases: "qsym a n = 1 \<or> qsym a n = - 1"
proof -
  have "(\<Prod>k\<in>A. eps a n k) = 1 \<or> (\<Prod>k\<in>A. eps a n k) = - 1" if "finite A" for A
    using that
  proof (induction A)
    case empty
    then show ?case by simp
  next
    case (insert x F)
    then show ?case using eps_cases [of a n x] by auto
  qed
  then show ?thesis by (simp add: qsym_def)
qed

lemma qsym_one_right: "qsym a 1 = 1"
  by (simp add: qsym_def half_def)

subsection \<open>Reciprocity\<close>

definition par :: "int \<Rightarrow> int" where
  "par x = (if even x then 1 else - 1)"

lemma par_add: "par (x + y) = par x * par y"
  by (simp add: par_def)

lemma par_diff: "par (x - y) = par x * par y"
  by (simp add: par_def)

lemma par_mult_odd: "odd a \<Longrightarrow> par (a * k) = par k"
  by (simp add: par_def)

lemma par_square: "par x * par x = 1"
  by (simp add: par_def)

lemma par_sum: "finite A \<Longrightarrow> par (sum f A) = (\<Prod>k\<in>A. par (f k))"
  by (induction A rule: finite_induct) (simp_all add: par_add, simp add: par_def)

lemma prod_signs:
  "finite A \<Longrightarrow> (\<Prod>k\<in>A. if P k then - 1 else (1::int)) = par (int (card {k \<in> A. P k}))"
proof (induction A rule: finite_induct)
  case empty
  then show ?case by (simp add: par_def)
next
  case (insert x F)
  have "{k \<in> insert x F. P k} = (if P x then insert x {k \<in> F. P k} else {k \<in> F. P k})"
    by auto
  moreover have "x \<notin> {k \<in> F. P k}"
    using insert.hyps by simp
  ultimately show ?case
    using insert by (simp add: par_def)
qed

text \<open>The symbol of two.\<close>

lemma qsym_two:
  assumes "odd n" and "0 < n"
  shows "qsym 2 n = par (half n - half n div 2)"
proof -
  define h where "h = half n"
  have n: "n = 2 * h + 1"
    unfolding h_def by (rule odd_half [OF assms(1)])
  have h0: "0 \<le> h"
    using n assms(2) by linarith
  have e: "eps 2 n k = (if h < 2 * k then - 1 else 1)" if "k \<in> {1..h}" for k
  proof -
    have "0 \<le> 2 * k" "2 * k < n"
      using that n by auto
    then have "(2 * k) mod n = 2 * k"
      by simp
    then show ?thesis
      by (simp add: eps_def h_def)
  qed
  have "qsym 2 n = (\<Prod>k\<in>{1..h}. if h < 2 * k then - 1 else 1)"
    unfolding qsym_def h_def [symmetric] by (intro prod.cong refl e)
  also have "\<dots> = par (int (card {k \<in> {1..h}. h < 2 * k}))"
    by (rule prod_signs) simp
  also have "{k \<in> {1..h}. h < 2 * k} = {h div 2 + 1..h}"
    using h0 by auto
  also have "int (card {h div 2 + 1..h}) = h - h div 2"
  proof -
    have "h div 2 \<le> h"
      using h0 by presburger
    then show ?thesis by simp
  qed
  finally show ?thesis
    by (simp add: h_def)
qed

lemma qsym_two_mod8:
  assumes "odd n" and "0 < n"
  shows "qsym 2 n = (if n mod 8 = 3 \<or> n mod 8 = 5 then - 1 else 1)"
proof -
  define m where "m = n div 8"
  have n: "n = 8 * m + n mod 8"
    by (simp add: m_def)
  have "n mod 8 = 1 \<or> n mod 8 = 3 \<or> n mod 8 = 5 \<or> n mod 8 = 7"
    using assms(1) by presburger
  then consider "n mod 8 = 1" | "n mod 8 = 3" | "n mod 8 = 5" | "n mod 8 = 7"
    by blast
  then show ?thesis
  proof cases
    case 1
    with n have "half n = 4 * m" by (simp add: half_def)
    moreover have "4 * m - (4 * m) div 2 = 2 * m" by presburger
    ultimately have "half n - half n div 2 = 2 * m" by simp
    with 1 show ?thesis by (simp add: qsym_two [OF assms] par_def)
  next
    case 2
    with n have "half n = 4 * m + 1" by (simp add: half_def)
    moreover have "4 * m + 1 - (4 * m + 1) div 2 = 2 * m + 1" by presburger
    ultimately have "half n - half n div 2 = 2 * m + 1" by simp
    with 2 show ?thesis by (simp add: qsym_two [OF assms] par_def)
  next
    case 3
    with n have "half n = 4 * m + 2" by (simp add: half_def)
    moreover have "4 * m + 2 - (4 * m + 2) div 2 = 2 * m + 1" by presburger
    ultimately have "half n - half n div 2 = 2 * m + 1" by simp
    with 3 show ?thesis by (simp add: qsym_two [OF assms] par_def)
  next
    case 4
    with n have "half n = 4 * m + 3" by (simp add: half_def)
    moreover have "4 * m + 3 - (4 * m + 3) div 2 = 2 * m + 2" by presburger
    ultimately have "half n - half n div 2 = 2 * m + 2" by simp
    with 4 show ?thesis by (simp add: qsym_two [OF assms] par_def)
  qed
qed

text \<open>For an odd numerator the symbol is the parity of a sum of quotients.\<close>

lemma par_fold_half:
  assumes "odd a" and "odd n"
  shows "par (fold_half a n k) = eps a n k * (par k * par ((a * k) div n))"
proof -
  define q where "q = (a * k) div n"
  define r where "r = (a * k) mod n"
  have "a * k = n * q + r"
    by (simp add: q_def r_def)
  then have "par (a * k) = par (n * q + r)" by simp
  then have "par k = par q * par r"
    using assms by (simp add: par_add par_mult_odd)
  then have "par q * par k = (par q * par q) * par r"
    by (simp add: algebra_simps)
  then have r: "par r = par q * par k"
    by (simp add: par_square)
  have "par (n - r) = - par r"
    using assms(2) by (simp add: par_def)
  then show ?thesis
    using r by (simp add: fold_half_def eps_def q_def [symmetric] r_def [symmetric] algebra_simps)
qed

lemma qsym_quotients:
  assumes "odd a" and "coprime a n" and "odd n" and "0 < n"
  shows "qsym a n = par (\<Sum>k\<in>{1..half n}. (a * k) div n)"
proof -
  define H where "H = {1..half n}"
  define P where "P = (\<Prod>k\<in>H. par k)"
  define Q where "Q = (\<Prod>k\<in>H. par ((a * k) div n))"
  have "(\<Prod>k\<in>H. par (fold_half a n k)) = P"
    unfolding P_def H_def by (rule prod.reindex_bij_betw [OF fold_half_bij [OF assms(2,3,4)]])
  moreover have "(\<Prod>k\<in>H. par (fold_half a n k)) = (\<Prod>k\<in>H. eps a n k * (par k * par ((a * k) div n)))"
    by (intro prod.cong refl par_fold_half [OF assms(1,3)])
  moreover have "(\<Prod>k\<in>H. eps a n k * (par k * par ((a * k) div n))) = qsym a n * (P * Q)"
    by (simp add: prod.distrib qsym_def H_def P_def Q_def)
  ultimately have e: "qsym a n * (P * Q) = P"
    by simp
  have PP: "P * P = 1"
    unfolding P_def prod.distrib [symmetric] by (simp add: par_square)
  have QQ: "Q * Q = 1"
    unfolding Q_def prod.distrib [symmetric] by (simp add: par_square)
  have "qsym a n * (P * Q) * (P * Q) = P * (P * Q)"
    by (simp only: e)
  then have "qsym a n * ((P * P) * (Q * Q)) = (P * P) * Q"
    by (simp only: mult.assoc mult.left_commute mult.commute)
  then have "qsym a n = Q"
    by (simp add: PP QQ)
  also have "Q = par (\<Sum>k\<in>H. (a * k) div n)"
    unfolding Q_def by (rule par_sum [symmetric]) (simp add: H_def)
  finally show ?thesis
    by (simp add: H_def)
qed

text \<open>Counting the lattice points below and above the line \<open>n * l = a * k\<close>.\<close>

lemma quotient_count:
  assumes "odd a" and "0 < a" and "odd n" and "0 < n" and "coprime a n"
    and "1 \<le> k" and "k \<le> half n"
  shows "(a * k) div n = (\<Sum>l\<in>{1..half a}. of_bool (n * l < a * k))"
proof -
  define q where "q = (a * k) div n"
  have dm: "a * k = n * q + (a * k) mod n"
    by (simp add: q_def)
  have r: "0 < (a * k) mod n" "(a * k) mod n < n"
    using residue_nonzero [OF assms(5,6,7,3,4)] pos_mod_sign [OF assms(4), of "a * k"]
      pos_mod_bound [OF assms(4), of "a * k"]
    by linarith+
  have q0: "0 \<le> q"
    unfolding q_def using assms(2,4,6) by (simp add: pos_imp_zdiv_nonneg_iff)
  have qa: "q \<le> half a"
  proof -
    have "2 * k \<le> n - 1"
      using odd_half [OF assms(3)] assms(7) by linarith
    then have "a * (2 * k) \<le> a * (n - 1)"
      using assms(2) by (intro mult_left_mono) simp_all
    moreover have "a * (2 * k) = 2 * (a * k)" "a * (n - 1) = a * n - a"
      by (simp_all add: algebra_simps)
    ultimately have "2 * (n * q) < a * n"
      using dm r assms(2) by linarith
    then have "n * (2 * q) < n * a"
      by (simp add: algebra_simps)
    then have "2 * q < a"
      using assms(4) by (simp add: mult_less_cancel_left_pos)
    then show ?thesis
      using odd_half [OF assms(1)] by linarith
  qed
  have iff: "n * l < a * k \<longleftrightarrow> l \<le> q" for l
  proof
    assume "n * l < a * k"
    then have "n * l < n * (q + 1)"
      using dm r by (simp add: algebra_simps)
    then have "l < q + 1"
      using assms(4) by (simp add: mult_less_cancel_left_pos)
    then show "l \<le> q" by simp
  next
    assume "l \<le> q"
    then have "n * l \<le> n * q"
      using assms(4) by (intro mult_left_mono) simp_all
    then show "n * l < a * k"
      using dm r by linarith
  qed
  have "(\<Sum>l\<in>{1..half a}. of_bool (n * l < a * k)) = int (card ({1..half a} \<inter> {l. n * l < a * k}))"
    by (rule sum_of_bool_eq) simp_all
  also have "{1..half a} \<inter> {l. n * l < a * k} = {1..q}"
    using qa by (auto simp: iff)
  also have "int (card {1..q}) = q"
    using q0 by simp
  finally show ?thesis
    by (simp add: q_def)
qed

lemma lattice_count:
  assumes "odd a" and "0 < a" and "odd n" and "0 < n" and "coprime a n"
  shows "(\<Sum>k\<in>{1..half n}. (a * k) div n) + (\<Sum>l\<in>{1..half a}. (n * l) div a) = half a * half n"
proof -
  define K where "K = {1..half n}"
  define L where "L = {1..half a}"
  have na: "coprime n a"
    using assms(5) by (simp add: coprime_commute)
  have s1: "(\<Sum>k\<in>K. (a * k) div n) = (\<Sum>k\<in>K. \<Sum>l\<in>L. of_bool (n * l < a * k))"
    unfolding K_def L_def
    by (intro sum.cong refl quotient_count [OF assms]) simp_all
  have s2: "(\<Sum>l\<in>L. (n * l) div a) = (\<Sum>l\<in>L. \<Sum>k\<in>K. of_bool (a * k < n * l))"
    unfolding K_def L_def
    by (intro sum.cong refl quotient_count [OF assms(3,4,1,2) na]) simp_all
  also have "\<dots> = (\<Sum>k\<in>K. \<Sum>l\<in>L. of_bool (a * k < n * l))"
    by (rule sum.swap)
  finally have s2': "(\<Sum>l\<in>L. (n * l) div a) = (\<Sum>k\<in>K. \<Sum>l\<in>L. of_bool (a * k < n * l))" .
  have ne: "a * k \<noteq> n * l" if "k \<in> K" for k l
  proof
    assume e: "a * k = n * l"
    have "(a * k) mod n \<noteq> 0"
      using that by (intro residue_nonzero [OF assms(5) _ _ assms(3,4)]) (simp_all add: K_def)
    with e show False by simp
  qed
  have one: "(of_bool (n * l < a * k) :: int) + of_bool (a * k < n * l) = 1" if "k \<in> K" for k l
    using ne [OF that, of l] by (cases "n * l < a * k") auto
  have "(\<Sum>k\<in>K. (a * k) div n) + (\<Sum>l\<in>L. (n * l) div a)
      = (\<Sum>k\<in>K. \<Sum>l\<in>L. (of_bool (n * l < a * k) :: int) + of_bool (a * k < n * l))"
    by (simp add: s1 s2' sum.distrib)
  also have "\<dots> = (\<Sum>k\<in>K. \<Sum>l\<in>L. 1)"
    by (intro sum.cong refl one)
  also have "\<dots> = int (card K) * int (card L)"
    by simp
  also have "\<dots> = half n * half a"
  proof -
    have "0 \<le> half n" "0 \<le> half a"
      using odd_half [OF assms(3)] odd_half [OF assms(1)] assms(2,4) by linarith+
    then show ?thesis by (simp add: K_def L_def)
  qed
  finally show ?thesis
    by (simp add: K_def L_def mult.commute)
qed

theorem qsym_reciprocity:
  assumes "odd a" and "0 < a" and "odd n" and "0 < n" and "coprime a n"
  shows "qsym a n * qsym n a = par (half a * half n)"
proof -
  have na: "coprime n a"
    using assms(5) by (simp add: coprime_commute)
  have "qsym a n * qsym n a
      = par ((\<Sum>k\<in>{1..half n}. (a * k) div n) + (\<Sum>l\<in>{1..half a}. (n * l) div a))"
    by (simp add: qsym_quotients [OF assms(1,5,3,4)] qsym_quotients [OF assms(3) na assms(1,2)] par_add)
  then show ?thesis
    by (simp only: lattice_count [OF assms])
qed

lemma qsym_swap:
  assumes "odd a" and "0 < a" and "odd n" and "0 < n" and "coprime a n"
  shows "qsym a n = (if a mod 4 = 3 \<and> n mod 4 = 3 then - qsym n a else qsym n a)"
proof -
  have h: "odd (half m) \<longleftrightarrow> m mod 4 = 3" if "odd m" for m :: int
  proof -
    have "m = 4 * (m div 4) + m mod 4" by simp
    moreover have "m mod 4 = 1 \<or> m mod 4 = 3"
      using that by presburger
    ultimately show ?thesis
      unfolding half_def by presburger
  qed
  have "qsym a n * (qsym n a * qsym n a) = par (half a * half n) * qsym n a"
    using qsym_reciprocity [OF assms] by (simp add: mult.assoc [symmetric])
  moreover have "qsym n a * qsym n a = 1"
    using qsym_cases [of n a] by auto
  ultimately have "qsym a n = par (half a * half n) * qsym n a"
    by simp
  then show ?thesis
    using h [OF assms(1)] h [OF assms(3)] by (auto simp: par_def)
qed

subsection \<open>Prime moduli\<close>

text \<open>Primality of the modulus, by trial division.\<close>

definition is_prime :: "int \<Rightarrow> bool" where
  "is_prime p \<longleftrightarrow> 1 < p \<and> (\<forall>d\<in>{2..p - 1}. \<not> d dvd p)"

lemma prime_divisor:
  assumes "is_prime p" and "d dvd p" and "0 < d"
  shows "d = 1 \<or> d = p"
proof (rule ccontr)
  assume n: "\<not> (d = 1 \<or> d = p)"
  have "0 < p"
    using assms(1) by (simp add: is_prime_def)
  with assms(2) have "d \<le> p"
    by (rule zdvd_imp_le)
  with n assms(3) have "d \<in> {2..p - 1}"
    by auto
  with assms(1,2) show False
    by (auto simp: is_prime_def)
qed

lemma prime_coprime:
  assumes "is_prime p" and "\<not> p dvd a"
  shows "coprime p a"
proof -
  have p: "0 < p"
    using assms(1) by (simp add: is_prime_def)
  define g where "g = gcd p a"
  have "0 \<le> g" "g \<noteq> 0"
    using p by (auto simp: g_def)
  then have "0 < g" by linarith
  moreover have gp: "g dvd p" and ga: "g dvd a"
    by (simp_all add: g_def)
  ultimately have "g = 1 \<or> g = p"
    using prime_divisor [OF assms(1)] by blast
  with ga assms(2) have "g = 1" by auto
  then show ?thesis
    by (simp add: g_def coprime_iff_gcd_eq_1)
qed

lemma prime_dvd_mult:
  assumes "is_prime p" and "p dvd a * b"
  shows "p dvd a \<or> p dvd b"
proof (cases "p dvd a")
  case True
  then show ?thesis by simp
next
  case False
  then have "coprime p a"
    by (rule prime_coprime [OF assms(1)])
  then have "p dvd b"
    using assms(2) by (simp add: coprime_dvd_mult_right_iff)
  then show ?thesis by simp
qed

lemma prime_dvd_prod:
  assumes "is_prime p"
  shows "finite A \<Longrightarrow> p dvd prod f A \<Longrightarrow> \<exists>k\<in>A. p dvd f k"
proof (induction A rule: finite_induct)
  case empty
  then have "p dvd 1" by simp
  then have "p \<le> 1" by (intro zdvd_imp_le) simp_all
  with assms show ?case by (simp add: is_prime_def)
next
  case (insert x F)
  then have "p dvd f x * prod f F" by simp
  then have "p dvd f x \<or> p dvd prod f F"
    by (rule prime_dvd_mult [OF assms])
  with insert show ?case by auto
qed

lemma prime_dvd_power:
  assumes "is_prime p" and "p dvd a ^ n"
  shows "p dvd a"
  using assms(2)
proof (induction n)
  case 0
  then have "p \<le> 1" by (intro zdvd_imp_le) simp_all
  with assms(1) show ?case by (simp add: is_prime_def)
next
  case (Suc n)
  then have "p dvd a * a ^ n" by simp
  then have "p dvd a \<or> p dvd a ^ n"
    by (rule prime_dvd_mult [OF assms(1)])
  with Suc show ?case by auto
qed

lemma prod_dvd_diff:
  fixes f g :: "'a \<Rightarrow> int"
  shows "finite A \<Longrightarrow> (\<And>k. k \<in> A \<Longrightarrow> n dvd f k - g k) \<Longrightarrow> n dvd prod f A - prod g A"
proof (induction A rule: finite_induct)
  case empty
  then show ?case by simp
next
  case (insert x F)
  have "n dvd f x - g x" "n dvd prod f F - prod g F"
    using insert by simp_all
  then have "n dvd f x * (prod f F - prod g F) + (f x - g x) * prod g F"
    by (intro dvd_add dvd_mult dvd_mult2)
  moreover have "f x * (prod f F - prod g F) + (f x - g x) * prod g F
      = f x * prod f F - g x * prod g F"
    by (simp add: algebra_simps)
  ultimately show ?case
    using insert by simp
qed

text \<open>Gauss's lemma: for a prime modulus the symbol is Euler's power.\<close>

lemma gauss_criterion:
  assumes "is_prime p" and "odd p" and "\<not> p dvd a"
  shows "p dvd a ^ nat (half p) - qsym a p"
proof -
  have p: "0 < p"
    using assms(1) by (simp add: is_prime_def)
  have cop: "coprime a p"
    using prime_coprime [OF assms(1,3)] by (simp add: coprime_commute)
  define H where "H = {1..half p}"
  define F where "F = (\<Prod>k\<in>H. k)"
  have h0: "0 \<le> half p"
    using odd_half [OF assms(2)] p by linarith
  have cH: "card H = nat (half p)"
    by (simp add: H_def)
  have l: "(\<Prod>k\<in>H. a * k) = a ^ nat (half p) * F"
    by (simp add: prod.distrib F_def cH)
  have "(\<Prod>k\<in>H. fold_half a p k) = F"
    unfolding F_def H_def by (rule prod.reindex_bij_betw [OF fold_half_bij [OF cop assms(2) p]])
  then have r: "(\<Prod>k\<in>H. eps a p k * fold_half a p k) = qsym a p * F"
    by (simp add: prod.distrib qsym_def H_def)
  have "p dvd (\<Prod>k\<in>H. a * k) - (\<Prod>k\<in>H. eps a p k * fold_half a p k)"
    by (rule prod_dvd_diff) (simp_all add: H_def eps_fold_cong)
  moreover have "a ^ nat (half p) * F - qsym a p * F = (a ^ nat (half p) - qsym a p) * F"
    by (simp add: algebra_simps)
  ultimately have "p dvd (a ^ nat (half p) - qsym a p) * F"
    by (simp only: l r)
  then have "p dvd a ^ nat (half p) - qsym a p \<or> p dvd F"
    by (rule prime_dvd_mult [OF assms(1)])
  moreover have "\<not> p dvd F"
  proof
    assume "p dvd F"
    then obtain k where k: "k \<in> H" "p dvd k"
      unfolding F_def using prime_dvd_prod [OF assms(1), of H "\<lambda>k. k"] by (auto simp: H_def)
    then have "0 < k" "k < p"
      using odd_half [OF assms(2)] by (auto simp: H_def)
    then show False
      using k(2) zdvd_not_zless by blast
  qed
  ultimately show ?thesis by simp
qed

lemma euler_residue:
  assumes "is_prime p" and "odd p" and "\<not> p dvd a" and "qsym a p = 1"
  shows "a ^ nat (half p) mod p = 1"
proof -
  have "p dvd a ^ nat (half p) - 1"
    using gauss_criterion [OF assms(1,2,3)] assms(4) by simp
  then have "a ^ nat (half p) mod p = 1 mod p"
    by (simp add: mod_eq_dvd_iff)
  then show ?thesis
    using assms(1) by (simp add: is_prime_def)
qed

lemma euler_nonresidue:
  assumes "is_prime p" and "odd p" and "\<not> p dvd a" and "qsym a p = - 1"
  shows "a ^ nat (half p) mod p = p - 1"
proof -
  have "a ^ nat (half p) mod p = (- 1) mod p"
    using gauss_criterion [OF assms(1,2,3)] assms(4) mod_eq_dvd_iff [of "a ^ nat (half p)" p "- 1"]
    by simp
  then show ?thesis
    using assms(1) by (simp add: is_prime_def zmod_minus1)
qed

lemma prime_sqrt_one:
  assumes "is_prime p" and "(z * z) mod p = 1"
  shows "z mod p = 1 \<or> z mod p = p - 1"
proof -
  have p: "1 < p"
    using assms(1) by (simp add: is_prime_def)
  have "(z * z) mod p = 1 mod p"
    using assms(2) p by simp
  then have "p dvd z * z - 1"
    by (simp add: mod_eq_dvd_iff)
  moreover have "z * z - 1 = (z - 1) * (z + 1)"
    by (simp add: algebra_simps)
  ultimately have "p dvd z - 1 \<or> p dvd z + 1"
    using prime_dvd_mult [OF assms(1)] by simp
  then show ?thesis
  proof
    assume "p dvd z - 1"
    then have "z mod p = 1 mod p"
      by (simp add: mod_eq_dvd_iff)
    then show ?thesis using p by simp
  next
    assume "p dvd z + 1"
    then have "z mod p = (- 1) mod p"
      using mod_eq_dvd_iff [of z p "- 1"] by simp
    then show ?thesis using p by (simp add: zmod_minus1)
  qed
qed

text \<open>A polynomial over the integers, lowest coefficient first, has fewer roots
  modulo a prime than coefficients.\<close>

fun horner :: "int list \<Rightarrow> int \<Rightarrow> int" where
  "horner [] x = 0"
| "horner (c # cs) x = c + x * horner cs x"

fun pdiv :: "int list \<Rightarrow> int \<Rightarrow> int list" where
  "pdiv [] r = []"
| "pdiv [c] r = []"
| "pdiv (c # d # cs) r = horner (d # cs) r # pdiv (d # cs) r"

lemma pdiv_length: "length (pdiv cs r) = length cs - 1"
  by (induction cs r rule: pdiv.induct) simp_all

lemma pdiv_last: "2 \<le> length cs \<Longrightarrow> last (pdiv cs r) = last cs"
proof (induction cs r rule: pdiv.induct)
  case (3 c d cs r)
  show ?case
  proof (cases cs)
    case Nil
    then show ?thesis by simp
  next
    case (Cons e es)
    then have "pdiv (d # cs) r \<noteq> []" by simp
    moreover have "last (pdiv (d # cs) r) = last (d # cs)"
      using 3 Cons by simp
    ultimately show ?thesis by simp
  qed
qed simp_all

lemma pdiv_horner: "horner cs x = horner cs r + (x - r) * horner (pdiv cs r) x"
proof (induction cs r rule: pdiv.induct)
  case (3 c d cs r)
  define H where "H = horner (d # cs)"
  define Q where "Q = horner (pdiv (d # cs) r) x"
  have ih: "H x = H r + (x - r) * Q"
    using 3 by (simp add: H_def Q_def)
  have "horner (c # d # cs) x = c + x * H x"
    by (simp add: H_def)
  also have "\<dots> = c + x * (H r + (x - r) * Q)"
    by (simp only: ih [symmetric])
  also have "\<dots> = (c + r * H r) + (x - r) * (H r + x * Q)"
    by (simp add: algebra_simps)
  also have "\<dots> = horner (c # d # cs) r + (x - r) * horner (pdiv (c # d # cs) r) x"
    by (simp add: H_def Q_def)
  finally show ?case .
qed simp_all

lemma roots_bound:
  assumes "is_prime p"
  shows "cs \<noteq> [] \<Longrightarrow> \<not> p dvd last cs \<Longrightarrow> R \<subseteq> {0..p - 1} \<Longrightarrow>
    (\<And>r. r \<in> R \<Longrightarrow> p dvd horner cs r) \<Longrightarrow> card R < length cs"
proof (induction "length cs" arbitrary: cs R)
  case 0
  then show ?case by simp
next
  case (Suc n)
  have fin: "finite R"
    using Suc.prems(3) by (rule finite_subset) simp
  show ?case
  proof (cases "R = {}")
    case True
    then show ?thesis using Suc.prems(1) by simp
  next
    case False
    then obtain r where r: "r \<in> R" by auto
    show ?thesis
    proof (cases n)
      case 0
      then obtain c where c: "cs = [c]"
        using Suc.hyps(2) by (cases cs) auto
      have "p dvd horner cs r"
        by (rule Suc.prems(4) [OF r])
      with c Suc.prems(2) show ?thesis by simp
    next
      case (Suc m)
      define qs where "qs = pdiv cs r"
      have len: "length cs = n + 1" "2 \<le> length cs"
        using Suc.hyps(2) Suc by simp_all
      have ql: "n = length qs"
        using len by (simp add: qs_def pdiv_length)
      have qne: "qs \<noteq> []"
        using ql Suc by auto
      have qlast: "\<not> p dvd last qs"
        using Suc.prems(2) by (simp add: qs_def pdiv_last [OF len(2)])
      have sub: "R - {r} \<subseteq> {0..p - 1}"
        using Suc.prems(3) by auto
      have roots: "p dvd horner qs r'" if "r' \<in> R - {r}" for r'
      proof -
        have a: "p dvd horner cs r'" "p dvd horner cs r"
          using that r Suc.prems(4) by auto
        have "horner cs r' - horner cs r = (r' - r) * horner qs r'"
          using pdiv_horner [of cs r' r] by (simp add: qs_def)
        moreover have "p dvd horner cs r' - horner cs r"
          using a by (rule dvd_diff)
        ultimately have "p dvd r' - r \<or> p dvd horner qs r'"
          using prime_dvd_mult [OF assms] by simp
        moreover have "\<not> p dvd r' - r"
        proof
          assume d: "p dvd r' - r"
          have b: "0 \<le> r'" "r' < p" "0 \<le> r" "r < p" "r' \<noteq> r"
            using that r Suc.prems(3) by auto
          show False
          proof (cases "r < r'")
            case True
            then show False
              using d b zdvd_not_zless [of "r' - r" p] by auto
          next
            case False
            then have "0 < r - r'" "r - r' < p"
              using b by auto
            moreover have "p dvd r - r'"
              using d by (simp add: dvd_diff_commute)
            ultimately show False
              using zdvd_not_zless by blast
          qed
        qed
        ultimately show ?thesis by simp
      qed
      have "card (R - {r}) < length qs"
        by (rule Suc.hyps(1) [OF ql qne qlast sub roots])
      then show ?thesis
        using r fin ql len by simp
    qed
  qed
qed

lemma horner_monomial: "horner (replicate n 0 @ [1]) x = x ^ n"
  by (induction n) simp_all

lemma nonresidue_exists:
  assumes "is_prime p" and "odd p"
  shows "\<exists>a\<in>{2..p - 1}. qsym a p = - 1"
proof (rule ccontr)
  assume n: "\<not> (\<exists>a\<in>{2..p - 1}. qsym a p = - 1)"
  have p: "1 < p"
    using assms(1) by (simp add: is_prime_def)
  define h where "h = nat (half p)"
  have ph: "p = 2 * int h + 1"
    using odd_half [OF assms(2)] p by (simp add: h_def)
  have h1: "1 \<le> h"
    using ph p by linarith
  define cs :: "int list" where "cs = (- 1) # replicate (h - 1) 0 @ [1]"
  have ev: "horner cs x = x ^ h - 1" for x :: int
  proof -
    have "horner cs x = - 1 + x * x ^ (h - 1)"
      by (simp add: cs_def horner_monomial)
    also have "x * x ^ (h - 1) = x ^ h"
      using h1 by (cases h) simp_all
    finally show ?thesis by simp
  qed
  have one: "qsym a p = 1" if "a \<in> {1..p - 1}" for a
  proof (cases "a = 1")
    case True
    have "qsym (1 * 1) p = qsym 1 p * qsym 1 p"
      using p assms(2) by (intro qsym_mult) simp_all
    then show ?thesis
      using qsym_cases [of 1 p] True by auto
  next
    case False
    with that n have "qsym a p \<noteq> - 1" by auto
    then show ?thesis
      using qsym_cases [of a p] by auto
  qed
  have "card {1..p - 1} < length cs"
  proof (rule roots_bound [OF assms(1)])
    show "cs \<noteq> []" by (simp add: cs_def)
    show "\<not> p dvd last cs"
      using p by (auto simp: cs_def dest: zdvd_imp_le)
    show "{1..p - 1} \<subseteq> {0..p - 1}" by auto
  next
    fix r
    assume r: "r \<in> {1..p - 1}"
    then have "\<not> p dvd r"
      using zdvd_not_zless [of r p] by auto
    then have "p dvd r ^ nat (half p) - qsym r p"
      by (rule gauss_criterion [OF assms])
    then show "p dvd horner cs r"
      by (simp add: ev one [OF r] h_def)
  qed
  moreover have "length cs = h + 1"
    using h1 by (simp add: cs_def)
  moreover have "card {1..p - 1} = 2 * h"
    using ph by simp
  ultimately show False
    using h1 by linarith
qed

subsection \<open>The Jacobi loop computes the symbol\<close>

text \<open>The symbol extended by zero to numerators that share a factor with the modulus.\<close>

definition jsym :: "int \<Rightarrow> int \<Rightarrow> int" where
  "jsym a n = (if coprime a n then qsym a n else 0)"

lemma qsym_power_two:
  assumes "odd n" and "0 < n" and "coprime c n"
  shows "qsym (c * 2 ^ s) n = qsym c n * qsym 2 n ^ s"
proof (induction s)
  case 0
  then show ?case by simp
next
  case (Suc s)
  have c2: "coprime 2 n"
    using assms(1) by simp
  have "coprime (c * 2 ^ s) n"
    using assms(3) c2 by simp
  then have "qsym ((c * 2 ^ s) * 2) n = qsym (c * 2 ^ s) n * qsym 2 n"
    by (rule qsym_mult [OF _ c2 assms(1,2)])
  then show ?case
    using Suc by (simp add: mult.assoc mult.commute mult.left_commute)
qed

lemma qsym_two_power:
  assumes "odd n" and "0 < n" and "0 \<le> s"
  shows "qsym 2 n ^ nat s = (if odd s \<and> (n mod 8 = 3 \<or> n mod 8 = 5) then - 1 else 1)"
proof -
  have "even (nat s) \<longleftrightarrow> even s"
    using assms(3) by (simp add: even_nat_iff)
  then show ?thesis
    by (simp add: qsym_two_mod8 [OF assms(1,2)])
qed

lemma jsym_step:
  assumes "odd b" and "0 < b" and "odd c" and "0 < c" and "0 \<le> s"
    and "a mod b = c * 2 ^ nat s"
  shows "jsym a b = (if odd s \<and> (b mod 8 = 3 \<or> b mod 8 = 5) then - 1 else 1) *
    ((if b mod 4 = 3 \<and> c mod 4 = 3 then - 1 else 1) * jsym b c)"
proof -
  have c2: "coprime (2 ^ nat s) b"
    using assms(1) by simp
  have "coprime a b \<longleftrightarrow> coprime (a mod b) b"
    using assms(2) by (simp add: coprime_mod_left_iff)
  also have "\<dots> \<longleftrightarrow> coprime c b"
    using c2 by (simp add: assms(6))
  finally have co: "coprime a b \<longleftrightarrow> coprime c b" .
  show ?thesis
  proof (cases "coprime c b")
    case False
    then have "\<not> coprime b c"
      by (simp add: coprime_commute)
    with False co show ?thesis
      by (simp add: jsym_def)
  next
    case True
    then have bc: "coprime b c"
      by (simp add: coprime_commute)
    have "qsym a b = qsym (a mod b) b"
      by (simp add: qsym_mod)
    also have "\<dots> = qsym c b * qsym 2 b ^ nat s"
      unfolding assms(6) by (rule qsym_power_two [OF assms(1,2) True])
    also have "qsym c b = (if c mod 4 = 3 \<and> b mod 4 = 3 then - qsym b c else qsym b c)"
      by (rule qsym_swap [OF assms(3,4,1,2) True])
    finally show ?thesis
      using True bc co by (simp add: jsym_def qsym_two_power [OF assms(1,2,5)])
  qed
qed

lemma jacobi_loop_correct:
  "0 \<le> a \<Longrightarrow> 0 < b \<Longrightarrow> odd b \<Longrightarrow> jacobi_loop a b j = Inr (j * jsym a b)"
proof (induction a b j rule: jacobi_loop.induct)
  case (1 a b j)
  define a1 where "a1 = bigint_rem a b"
  define s where "s = zeroBits a1"
  define j1 where "j1 = (if odd s \<and> (b AND 7 = 3 \<or> b AND 7 = 5) then - j else j)"
  define c where "c = bigint_shr a1 s"
  define j2 where "j2 = (if b AND 3 = 3 \<and> c AND 3 = 3 then - j1 else j1)"
  have a1: "a1 = a mod b"
    unfolding a1_def using "1.prems"(1,2) by (rule bigint_rem_nonneg)
  show ?case
  proof (cases "b = 1")
    case True
    then show ?thesis
      by (subst jacobi_loop.simps) (simp add: jsym_def qsym_one_right)
  next
    case b1: False
    show ?thesis
    proof (cases "a1 = 0")
      case True
      then have "b dvd a"
        by (simp add: a1 dvd_eq_mod_eq_0)
      then have "\<not> coprime a b"
        using b1 "1.prems"(2) by (auto simp: coprime_def dest: zdvd_imp_le)
      then have "jsym a b = 0"
        by (simp add: jsym_def)
      moreover have "jacobi_loop a b j = Inr 0"
        using b1 True "1.prems"(2) by (subst jacobi_loop.simps) (simp add: a1_def Let_def)
      ultimately show ?thesis by simp
    next
      case False
      then have a0: "a \<noteq> 0"
        by (auto simp: a1)
      from "1.prems" have b0: "b \<noteq> 0" by simp
      have "0 \<le> a1"
        unfolding a1 using "1.prems"(2) by simp
      with False have a1pos: "0 < a1" by simp
      from zeroBits_pos_spec [OF a1pos] have cpos: "0 < c" and codd: "odd c"
        and fac: "a1 = c * 2 ^ nat s"
        by (auto simp: c_def s_def)
      have s0: "0 \<le> s"
        unfolding s_def by (rule zeroBits_nonneg)
      have step: "jacobi_loop a b j = jacobi_loop b c j2"
        using b1 a0 False b0
        by (subst jacobi_loop.simps) (simp add: a1_def s_def j1_def c_def j2_def Let_def)
      have "jacobi_loop b c j2 = Inr (j2 * jsym b c)"
        using "1.IH" [OF b1 a0 b0 a1_def False s_def j1_def c_def j2_def] "1.prems"(2) cpos codd
        by simp
      moreover have "j2 * jsym b c = j * jsym a b"
        unfolding jsym_step [OF "1.prems"(3,2) codd cpos s0 fac [unfolded a1]]
        by (simp add: j2_def j1_def and_7_eq_mod and_3_eq_mod)
      ultimately show ?thesis
        using step by simp
    qed
  qed
qed

lemma jsym_mod: "0 < n \<Longrightarrow> jsym (a mod n) n = jsym a n"
  by (simp add: jsym_def qsym_mod coprime_mod_left_iff)

lemma jacobi_correct:
  assumes "odd n" and "0 < n"
  shows "jacobi a n = Inr (jsym a n)"
proof -
  have n0: "n \<noteq> 0" "n AND 1 \<noteq> 0" "\<not> n < 0"
    using assms by (auto simp: and_one_zero_iff_even)
  show ?thesis
  proof (cases "a < 0")
    case True
    have "jacobi a n = jacobi_loop (a mod n) n 1"
      using n0 True by (simp add: jacobi_def Let_def mod_bn_pos [OF assms(2)])
    also have "\<dots> = Inr (1 * jsym (a mod n) n)"
      using assms by (intro jacobi_loop_correct) simp_all
    finally show ?thesis
      by (simp add: jsym_mod [OF assms(2)])
  next
    case False
    have "jacobi a n = jacobi_loop a n 1"
      using n0 False by (simp add: jacobi_def Let_def)
    also have "\<dots> = Inr (1 * jsym a n)"
      using assms False by (intro jacobi_loop_correct) simp_all
    finally show ?thesis by simp
  qed
qed

lemma jsym_prime:
  assumes "is_prime p"
  shows "jsym a p = (if p dvd a then 0 else qsym a p)"
proof (cases "p dvd a")
  case True
  have "1 < p"
    using assms by (simp add: is_prime_def)
  with True have "\<not> coprime a p"
    by (auto simp: coprime_def dest: zdvd_imp_le)
  with True show ?thesis
    by (simp add: jsym_def)
next
  case False
  then have "coprime a p"
    using prime_coprime [OF assms] by (simp add: coprime_commute)
  with False show ?thesis
    by (simp add: jsym_def)
qed

text \<open>Square and multiply computes the power.\<close>

lemma powm_loop_correct:
  "0 < m \<Longrightarrow> 0 \<le> r \<Longrightarrow> r < m \<Longrightarrow> 0 \<le> x \<Longrightarrow> powm_loop r x y m = (r * x ^ nat y) mod m"
proof (induction r x y m rule: powm_loop.induct)
  case (1 r x y m)
  show ?case
  proof (cases "0 < y")
    case False
    then show ?thesis
      using "1.prems" by (subst powm_loop.simps) simp
  next
    case True
    define r1 where "r1 = (if y AND 1 = 1 then bigint_rem (r * x) m else r)"
    define x1 where "x1 = bigint_rem (x ^ 2) m"
    define k where "k = nat (y div 2)"
    have x1: "x1 = (x * x) mod m"
      unfolding x1_def using "1.prems"(1) by (simp add: bigint_rem_nonneg power2_eq_square)
    have r1: "r1 = (if odd y then (r * x) mod m else r)"
      unfolding r1_def using "1.prems" by (simp add: bigint_rem_nonneg and_one_eq odd_iff_mod_2_eq_one)
    have y: "nat y = 2 * k + (if odd y then 1 else 0)"
      using True unfolding k_def by (auto elim!: oddE evenE simp: nat_add_distrib nat_mult_distrib)
    have sh: "bigint_shr y 1 = y div 2"
      by (simp add: bigint_shr_def drop_bit_eq_div)
    have b: "0 \<le> r1" "r1 < m" "0 \<le> x1"
      using "1.prems" by (simp_all add: r1 x1)
    have "powm_loop r x y m = powm_loop r1 x1 (bigint_shr y 1) m"
      using True by (subst powm_loop.simps) (simp add: r1_def x1_def)
    also have "\<dots> = (r1 * x1 ^ nat (bigint_shr y 1)) mod m"
      using "1.IH" [OF True "1.prems"(1) b [unfolded r1_def x1_def]]
      by (simp only: r1_def x1_def)
    also have "\<dots> = (r1 * x1 ^ k) mod m"
      by (simp add: sh k_def)
    also have "\<dots> = ((r1 mod m) * (x1 ^ k mod m)) mod m"
      by (simp only: mod_mult_eq)
    also have "x1 ^ k mod m = (x * x) ^ k mod m"
      unfolding x1 by (rule power_mod)
    also have "r1 mod m = (r * x ^ (if odd y then 1 else 0)) mod m"
      using "1.prems" by (simp add: r1)
    also have "((r * x ^ (if odd y then 1 else 0)) mod m * ((x * x) ^ k mod m)) mod m
        = ((r * x ^ (if odd y then 1 else 0)) * (x * x) ^ k) mod m"
      by (simp add: mod_mult_eq)
    also have "(r * x ^ (if odd y then 1 else 0)) * (x * x) ^ k = r * x ^ nat y"
      unfolding y by (simp add: power_add power_mult power2_eq_square)
    finally show ?thesis .
  qed
qed

lemma powm_correct:
  assumes "1 < m" and "0 \<le> y"
  shows "powm x y m = Inr (x ^ nat y mod m)"
proof -
  have m: "0 < m" using assms(1) by simp
  have "powm x y m = Inr (powm_loop 1 (x mod m) y m)"
    using assms m by (simp add: powm_def mod_bn_pos [OF m])
  also have "powm_loop 1 (x mod m) y m = (1 * (x mod m) ^ nat y) mod m"
    using assms m by (intro powm_loop_correct) simp_all
  finally show ?thesis
    by (simp add: power_mod)
qed

subsection \<open>The loops of \<open>sqrtm\<close> end\<close>

lemma nonresidue_search_finds:
  assumes "odd p" and "0 < p"
  shows "n \<le> a \<Longrightarrow> jsym a p = - 1 \<Longrightarrow>
    \<exists>n'. nonresidue_search n p = Some (Inr n') \<and> jsym n' p = - 1"
proof (induction "nat (a - n)" arbitrary: n)
  case 0
  then have "n = a" by simp
  then have "nonresidue_search n p = Some (Inr n)"
    using "0.prems"(2) by (subst nonresidue_search.simps) (simp add: jacobi_correct [OF assms])
  with \<open>n = a\<close> "0.prems"(2) show ?case by blast
next
  case (Suc d)
  show ?case
  proof (cases "jsym n p = - 1")
    case True
    then have "nonresidue_search n p = Some (Inr n)"
      by (subst nonresidue_search.simps) (simp add: jacobi_correct [OF assms])
    with True show ?thesis by blast
  next
    case False
    with Suc.prems have "n \<noteq> a" by auto
    then have "n + 1 \<le> a"
      using Suc.prems(1) by simp
    moreover have "d = nat (a - (n + 1))"
      using Suc.hyps(2) by simp
    ultimately have "\<exists>n'. nonresidue_search (n + 1) p = Some (Inr n') \<and> jsym n' p = - 1"
      using Suc.hyps(1) Suc.prems(2) by blast
    moreover have "nonresidue_search n p = nonresidue_search (n + 1) p"
      using False by (subst nonresidue_search.simps) (simp add: jacobi_correct [OF assms])
    ultimately show ?thesis by simp
  qed
qed

lemma square_tower_mod:
  fixes t :: int
  shows "(t ^ 2 mod p) ^ 2 ^ i mod p = t ^ 2 ^ Suc i mod p"
proof -
  have "(t ^ 2 mod p) ^ 2 ^ i mod p = (t ^ 2) ^ 2 ^ i mod p"
    by (rule power_mod)
  also have "(t ^ 2) ^ 2 ^ i = t ^ 2 ^ Suc i"
    by (simp add: power_mult [symmetric])
  finally show ?thesis .
qed

lemma order_loop_finds:
  assumes "1 < p"
  shows "0 \<le> t \<Longrightarrow> t < p \<Longrightarrow> t ^ 2 ^ j mod p = 1 \<Longrightarrow>
    \<exists>d\<le>j. order_loop t m p = Some (m + int d) \<and> t ^ 2 ^ d mod p = 1 \<and>
      (0 < d \<longrightarrow> t ^ 2 ^ (d - 1) mod p \<noteq> 1)"
proof (induction j arbitrary: t m)
  case 0
  then have "t = 1" by simp
  then have "order_loop t m p = Some (m + int 0)"
    by (subst order_loop.simps) simp
  with 0 show ?case by auto
next
  case (Suc j)
  show ?case
  proof (cases "t = 1")
    case True
    then have "order_loop t m p = Some (m + int 0)"
      by (subst order_loop.simps) simp
    moreover have "t ^ 2 ^ 0 mod p = 1"
      using True assms by simp
    ultimately show ?thesis by blast
  next
    case False
    define t' where "t' = bigint_rem (t ^ 2) p"
    have t': "t' = t ^ 2 mod p"
      unfolding t'_def using assms by (simp add: bigint_rem_nonneg)
    have r: "0 \<le> t'" "t' < p"
      using assms by (simp_all add: t')
    have "t' ^ 2 ^ j mod p = 1"
      unfolding t' square_tower_mod by (rule Suc.prems(3))
    from Suc.IH [OF r this, of "m + 1"] obtain d where d: "d \<le> j"
      "order_loop t' (m + 1) p = Some (m + 1 + int d)" "t' ^ 2 ^ d mod p = 1"
      "0 < d \<longrightarrow> t' ^ 2 ^ (d - 1) mod p \<noteq> 1"
      by blast
    have "order_loop t m p = order_loop t' (m + 1) p"
      using False by (subst order_loop.simps) (simp add: t'_def)
    then have a: "order_loop t m p = Some (m + int (Suc d))"
      using d(2) by simp
    have b: "t ^ 2 ^ Suc d mod p = 1"
      using d(3) unfolding t' square_tower_mod .
    have c: "t ^ 2 ^ (Suc d - 1) mod p \<noteq> 1"
    proof (cases d)
      case 0
      then show ?thesis
        using False Suc.prems(1,2) by simp
    next
      case (Suc d')
      then have "t' ^ 2 ^ d' mod p \<noteq> 1"
        using d(4) by simp
      then show ?thesis
        unfolding t' square_tower_mod Suc by simp
    qed
    from a b c d(1) show ?thesis
      by (intro exI [of _ "Suc d"]) simp
  qed
qed

lemma minus_one_square_mod:
  assumes "1 < (p::int)"
  shows "((p - 1) * (p - 1)) mod p = 1"
proof -
  have "(p - 1) * (p - 1) = 1 + p * (p - 2)"
    by (simp add: algebra_simps)
  then have "((p - 1) * (p - 1)) mod p = 1 mod p"
    by (simp only: mod_mult_self2)
  then show ?thesis
    using assms by simp
qed

lemma sqrtm_loop_correct:
  assumes "is_prime p"
  shows "1 \<le> k \<Longrightarrow> 0 \<le> y \<Longrightarrow> 0 \<le> b \<Longrightarrow> b < p \<Longrightarrow> 0 \<le> g \<Longrightarrow>
    (y * y) mod p = (X * b) mod p \<Longrightarrow> b ^ 2 ^ (k - 1) mod p = 1 \<Longrightarrow>
    g ^ 2 ^ (k - 1) mod p = p - 1 \<Longrightarrow>
    \<exists>r. sqrtm_loop y b g (int k) p = Some (Inr r) \<and> (r * r) mod p = X mod p"
proof (induction k arbitrary: y b g rule: less_induct)
  case (less k)
  have p: "1 < p"
    using assms by (simp add: is_prime_def)
  from order_loop_finds [OF p less.prems(3,4,7), of 0] obtain d where d: "d \<le> k - 1"
    "order_loop b 0 p = Some (int d)" "b ^ 2 ^ d mod p = 1"
    "0 < d \<longrightarrow> b ^ 2 ^ (d - 1) mod p \<noteq> 1"
    by auto
  show ?case
  proof (cases "d = 0")
    case True
    then have "b = 1"
      using d(3) less.prems(3,4) by simp
    then have "(y * y) mod p = X mod p"
      using less.prems(6) by simp
    moreover have "sqrtm_loop y b g (int k) p = Some (Inr y)"
      using True d(2) by (subst sqrtm_loop.simps) simp
    ultimately show ?thesis by blast
  next
    case False
    then have d0: "0 < d" by simp
    have dk: "d < k"
      using d(1) less.prems(1) by simp
    define z where "z = k - d - 1"
    have kz: "k - 1 = z + d"
      using dk by (simp add: z_def)
    define t where "t = g ^ 2 ^ z mod p"
    define g' where "g' = bigint_rem (t ^ 2) p"
    define y' where "y' = bigint_rem (y * t) p"
    define b' where "b' = bigint_rem (b * g') p"
    have t0: "0 \<le> t" "t < p"
      using p by (simp_all add: t_def)
    have g': "g' = t ^ 2 mod p"
      unfolding g'_def using p by (simp add: bigint_rem_nonneg)
    have y': "y' = (y * t) mod p"
      unfolding y'_def using p t0 less.prems(2) by (simp add: bigint_rem_nonneg)
    have g0: "0 \<le> g'" "g' < p"
      using p by (simp_all add: g')
    have b': "b' = (b * g') mod p"
      unfolding b'_def using p g0 less.prems(3) by (simp add: bigint_rem_nonneg)
    have sh: "bigint_shl 1 (int k - int d - 1) = 2 ^ z"
      using dk by (simp add: bigint_shl_def z_def push_bit_eq_mult nat_diff_distrib)
    have pw: "powm g (bigint_shl 1 (int k - int d - 1)) p = Inr t"
      unfolding sh t_def using p by (simp add: powm_correct nat_power_eq)
    have step: "sqrtm_loop y b g (int k) p = sqrtm_loop y' b' g' (int d) p"
      using d0 dk d(2)
      by (subst sqrtm_loop.simps) (simp add: pw g'_def y'_def b'_def Let_def)
    have i1: "(y' * y') mod p = (X * b') mod p"
    proof -
      have "(y' * y') mod p = ((y * t) * (y * t)) mod p"
        unfolding y' by (rule mod_mult_eq)
      also have "(y * t) * (y * t) = (y * y) * t ^ 2"
        by (simp add: power2_eq_square algebra_simps)
      also have "((y * y) * t ^ 2) mod p = ((y * y) mod p * (t ^ 2 mod p)) mod p"
        by (simp only: mod_mult_eq)
      also have "\<dots> = ((X * b) mod p * g') mod p"
        by (simp only: less.prems(6) g')
      also have "\<dots> = ((X * b) * g') mod p"
        by (rule mod_mult_left_eq)
      also have "(X * b) * g' = X * (b * g')"
        by (simp add: mult.assoc)
      also have "(X * (b * g')) mod p = (X * b') mod p"
        unfolding b' by (rule mod_mult_right_eq [symmetric])
      finally show ?thesis .
    qed
    have i3: "g' ^ 2 ^ (d - 1) mod p = p - 1"
    proof -
      have "g' ^ 2 ^ (d - 1) mod p = t ^ 2 ^ Suc (d - 1) mod p"
        unfolding g' by (rule square_tower_mod)
      also have "\<dots> = t ^ 2 ^ d mod p"
        using d0 by simp
      also have "\<dots> = (g ^ 2 ^ z) ^ 2 ^ d mod p"
        unfolding t_def by (rule power_mod)
      also have "(g ^ 2 ^ z) ^ 2 ^ d = g ^ 2 ^ (k - 1)"
        unfolding kz by (simp add: power_mult [symmetric] power_add)
      finally show ?thesis
        using less.prems(8) by simp
    qed
    have i2: "b' ^ 2 ^ (d - 1) mod p = 1"
    proof -
      define w where "w = b ^ 2 ^ (d - 1) mod p"
      have "(w * w) mod p = (b ^ 2 ^ (d - 1) * b ^ 2 ^ (d - 1)) mod p"
        unfolding w_def by (rule mod_mult_eq)
      also have "b ^ 2 ^ (d - 1) * b ^ 2 ^ (d - 1) = b ^ 2 ^ Suc (d - 1)"
        by (simp add: power_add [symmetric] mult_2)
      also have "\<dots> = b ^ 2 ^ d"
        using d0 by simp
      finally have "(w * w) mod p = 1"
        using d(3) by simp
      then have "w mod p = 1 \<or> w mod p = p - 1"
        by (rule prime_sqrt_one [OF assms])
      moreover have "w mod p = w"
        by (simp add: w_def)
      moreover have "w \<noteq> 1"
        using d(4) d0 by (simp add: w_def)
      ultimately have w: "w = p - 1" by simp
      have "b' ^ 2 ^ (d - 1) mod p = (b * g') ^ 2 ^ (d - 1) mod p"
        unfolding b' by (rule power_mod)
      also have "(b * g') ^ 2 ^ (d - 1) = b ^ 2 ^ (d - 1) * g' ^ 2 ^ (d - 1)"
        by (rule power_mult_distrib)
      also have "(b ^ 2 ^ (d - 1) * g' ^ 2 ^ (d - 1)) mod p = (w * (g' ^ 2 ^ (d - 1) mod p)) mod p"
        unfolding w_def by (rule mod_mult_eq [symmetric])
      also have "\<dots> = ((p - 1) * (p - 1)) mod p"
        by (simp only: w i3)
      finally show ?thesis
        by (simp only: minus_one_square_mod [OF p])
    qed
    have y0: "0 \<le> y'" and b0: "0 \<le> b'" "b' < p"
      using p by (simp_all add: y' b')
    from less.IH [OF dk _ y0 b0 g0(1) i1 i2 i3] d0
    obtain r where "sqrtm_loop y' b' g' (int d) p = Some (Inr r)" "(r * r) mod p = X mod p"
      by auto
    with step show ?thesis by auto
  qed
qed

subsection \<open>The three paths of \<open>sqrtm\<close>\<close>

lemma prime_not_dvd_two:
  assumes "is_prime p" and "odd p"
  shows "\<not> p dvd 2"
proof
  assume "p dvd 2"
  then have "p \<le> 2"
    by (rule zdvd_imp_le) simp
  moreover have "1 < p"
    using assms(1) by (simp add: is_prime_def)
  ultimately have "p = 2" by simp
  with assms(2) show False by simp
qed

lemma fast_root:
  assumes "is_prime p" and "odd p" and "p mod 4 = 3" and "\<not> p dvd X" and "qsym X p = 1"
  shows "(X ^ nat ((p + 1) div 4) mod p * (X ^ nat ((p + 1) div 4) mod p)) mod p = X mod p"
proof -
  define q where "q = p div 4"
  have pq: "p = 4 * q + 3"
    using assms(3) by (simp add: q_def) presburger
  have p: "1 < p"
    using assms(1) by (simp add: is_prime_def)
  then have q0: "0 \<le> q"
    using pq by linarith
  have e: "nat ((p + 1) div 4) = nat q + 1"
    using q0 unfolding pq by (simp add: nat_add_distrib)
  have h: "nat (half p) = 2 * nat q + 1"
    using q0 unfolding pq half_def by (simp add: nat_add_distrib nat_mult_distrib)
  have "(X ^ (nat q + 1) mod p * (X ^ (nat q + 1) mod p)) mod p
      = (X ^ (nat q + 1) * X ^ (nat q + 1)) mod p"
    by (rule mod_mult_eq)
  also have "X ^ (nat q + 1) * X ^ (nat q + 1) = X ^ nat (half p) * X"
    unfolding h by (simp add: power_add [symmetric] mult_2)
  also have "(X ^ nat (half p) * X) mod p = ((X ^ nat (half p) mod p) * X) mod p"
    by (rule mod_mult_left_eq [symmetric])
  also have "\<dots> = X mod p"
    by (simp add: euler_residue [OF assms(1,2,4,5)])
  finally show ?thesis
    unfolding e .
qed

lemma atkin_root:
  assumes "is_prime p" and "odd p" and "p mod 8 = 5" and "\<not> p dvd X" and "qsym X p = 1"
    and t: "t = 2 * X"
    and a: "a = t ^ nat (p div 8) mod p"
    and i: "i = ((a ^ 2 mod p) * t) mod p"
    and r: "r = ((((i - 1) mod p) * X) mod p * a) mod p"
  shows "(r * r) mod p = X mod p"
proof -
  define q where "q = p div 8"
  have pq: "p = 8 * q + 5"
    using assms(3) by (simp add: q_def) presburger
  have p: "1 < p"
    using assms(1) by (simp add: is_prime_def)
  then have q0: "0 \<le> q"
    using pq by linarith
  define A where "A = t ^ nat q"
  define I where "I = A * A * t"
  define R where "R = (I - 1) * X * A"
  have h: "nat (half p) = 4 * nat q + 2"
    using q0 unfolding pq half_def by (simp add: nat_add_distrib nat_mult_distrib)
  have "t ^ (2 * nat q + 1) = I"
    by (simp add: I_def A_def power_add mult_2)
  then have "I * I = t ^ ((2 * nat q + 1) + (2 * nat q + 1))"
    by (simp only: power_add)
  also have "(2 * nat q + 1) + (2 * nat q + 1) = nat (half p)"
    using h by simp
  finally have II: "I * I = t ^ nat (half p)" .
  have c2: "coprime 2 p"
    using assms(2) by simp
  have cX: "coprime X p"
    using prime_coprime [OF assms(1,4)] by (simp add: coprime_commute)
  have "qsym (2 * X) p = qsym 2 p * qsym X p"
    using p by (intro qsym_mult [OF c2 cX assms(2)]) simp
  also have "qsym 2 p = - 1"
    using p assms(2,3) by (simp add: qsym_two_mod8)
  finally have qt: "qsym t p = - 1"
    by (simp add: t assms(5))
  have nt: "\<not> p dvd t"
    unfolding t using prime_dvd_mult [OF assms(1), of 2 X] prime_not_dvd_two [OF assms(1,2)] assms(4)
    by blast
  have "p dvd t ^ nat (half p) - qsym t p"
    by (rule gauss_criterion [OF assms(1,2) nt])
  then have d: "p dvd I * I + 1"
    by (simp add: qt II)
  have "R * R - X = (I * I + 1) * (X * X * (A * A) - X)"
    unfolding R_def I_def t by (simp add: algebra_simps power2_eq_square)
  with d have "p dvd R * R - X"
    by simp
  then have RR: "(R * R) mod p = X mod p"
    by (simp add: mod_eq_dvd_iff)
  have "r = R mod p"
    unfolding r i a R_def I_def A_def q_def
    by (simp add: mod_simps power2_eq_square)
  then have "(r * r) mod p = (R * R) mod p"
    by (simp add: mod_mult_eq)
  with RR show ?thesis by simp
qed

lemma tonelli_init:
  assumes "is_prime p" and "odd p" and "p - 1 = c * 2 ^ E" and "odd c" and "0 < c"
    and "\<not> p dvd X" and "qsym X p = 1" and "\<not> p dvd n" and "qsym n p = - 1"
  shows "1 \<le> E"
    and "(X ^ nat ((c + 1) div 2) mod p * (X ^ nat ((c + 1) div 2) mod p)) mod p
      = (X * (X ^ nat c mod p)) mod p"
    and "(X ^ nat c mod p) ^ 2 ^ (E - 1) mod p = 1"
    and "(n ^ nat c mod p) ^ 2 ^ (E - 1) mod p = p - 1"
proof -
  show E: "1 \<le> E"
  proof (rule ccontr)
    assume "\<not> 1 \<le> E"
    then have "E = 0" by simp
    with assms(3) have "p = c + 1" by simp
    with assms(2,4) show False by simp
  qed
  then obtain E' where E': "E = Suc E'"
    by (cases E) simp_all
  have "half p = c * 2 ^ E'"
    unfolding half_def assms(3) E' by simp
  then have h: "nat (half p) = nat c * 2 ^ E'"
    using assms(5) by (simp add: nat_mult_distrib nat_power_eq)
  obtain m where m: "c = 2 * m + 1"
    using assms(4) by (auto elim: oddE)
  then have m0: "0 \<le> m"
    using assms(5) by linarith
  have c: "nat c = 2 * nat m + 1" "nat ((c + 1) div 2) = nat m + 1"
    using m0 unfolding m by (simp_all add: nat_add_distrib nat_mult_distrib)
  have "(X ^ (nat m + 1) mod p * (X ^ (nat m + 1) mod p)) mod p
      = (X ^ (nat m + 1) * X ^ (nat m + 1)) mod p"
    by (rule mod_mult_eq)
  also have "X ^ (nat m + 1) * X ^ (nat m + 1) = X * X ^ nat c"
    unfolding c by (simp add: power_add [symmetric] mult_2)
  also have "(X * X ^ nat c) mod p = (X * (X ^ nat c mod p)) mod p"
    by (rule mod_mult_right_eq [symmetric])
  finally show "(X ^ nat ((c + 1) div 2) mod p * (X ^ nat ((c + 1) div 2) mod p)) mod p
      = (X * (X ^ nat c mod p)) mod p"
    unfolding c .
  have pw: "(z ^ nat c mod p) ^ 2 ^ (E - 1) mod p = z ^ nat (half p) mod p" for z
  proof -
    have "(z ^ nat c mod p) ^ 2 ^ (E - 1) mod p = (z ^ nat c) ^ 2 ^ (E - 1) mod p"
      by (rule power_mod)
    also have "(z ^ nat c) ^ 2 ^ (E - 1) = z ^ nat (half p)"
      unfolding h E' by (simp add: power_mult)
    finally show ?thesis .
  qed
  show "(X ^ nat c mod p) ^ 2 ^ (E - 1) mod p = 1"
    unfolding pw by (rule euler_residue [OF assms(1,2,6,7)])
  show "(n ^ nat c mod p) ^ 2 ^ (E - 1) mod p = p - 1"
    unfolding pw by (rule euler_nonresidue [OF assms(1,2,8,9)])
qed

lemma jacobi_prime_values:
  assumes "is_prime p" and "odd p"
  shows "jacobi x p = Inr (- 1) \<or> jacobi x p = Inr 0 \<or> jacobi x p = Inr 1"
proof -
  have "0 < p"
    using assms(1) by (simp add: is_prime_def)
  then have "jacobi x p = Inr (jsym x p)"
    by (rule jacobi_correct [OF assms(2)])
  then show ?thesis
    using qsym_cases [of x p] by (auto simp: jsym_def)
qed

lemma sqrtm_residue:
  assumes "is_prime p" and "odd p" and j: "jacobi x p = Inr 1"
  shows "\<exists>r. sqrtm x p = Some (Inr r) \<and> (r * r) mod p = x mod p"
proof -
  have p: "1 < p" "0 < p" "\<not> p \<le> 0"
    using assms(1) by (simp_all add: is_prime_def)
  have "jacobi x p = Inr (jsym x p)"
    by (rule jacobi_correct [OF assms(2) p(2)])
  with j have "jsym x p = 1" by simp
  then have x: "\<not> p dvd x" "qsym x p = 1"
    by (auto simp: jsym_prime [OF assms(1)] split: if_splits)
  define X where "X = x mod p"
  have X: "\<not> p dvd X" "qsym X p = 1" "0 \<le> X" "X < p"
    using x p by (simp_all add: X_def qsym_mod dvd_mod_iff)
  have red: "(if x < 0 \<or> p \<le> x then mod_bn x p else Inr x) = Inr X"
    using p by (auto simp: X_def mod_bn_pos)
  have start: "sqrtm x p =
     (if p AND 3 = 3 then
            (let e = bigint_shr (p + 1) 2 in Some (powm X e p))
          else if p AND 7 = 5 then
            (let e = bigint_shr p 3;
                 t = bigint_shl X 1
             in case powm t e p of
               Inl err \<Rightarrow> Some (Inl err)
             | Inr a \<Rightarrow>
                 let b = bigint_rem (a ^ 2) p;
                     b = bigint_rem (b * t) p
                 in case mod_bn (b - 1) p of
                   Inl err \<Rightarrow> Some (Inl err)
                 | Inr b \<Rightarrow>
                     let b = bigint_rem (b * X) p;
                         b = bigint_rem (b * a) p
                     in Some (Inr b))
          else
            (let s = p - 1;
                 e = zeroBits s;
                 s = bigint_shr s e
             in Option.bind (nonresidue_search 2 p) (\<lambda>found.
               case found of
                 Inl err \<Rightarrow> Some (Inl err)
               | Inr n \<Rightarrow>
                 (case powm X (bigint_shr (s + 1) 1) p of
                    Inl err \<Rightarrow> Some (Inl err)
                  | Inr y \<Rightarrow>
                    (case powm X s p of
                       Inl err \<Rightarrow> Some (Inl err)
                     | Inr b \<Rightarrow>
                       (case powm n s p of
                          Inl err \<Rightarrow> Some (Inl err)
                        | Inr g \<Rightarrow> sqrtm_loop y b g e p))))))"
    unfolding sqrtm_def j red using p by simp
  show ?thesis
  proof (cases "p mod 4 = 3")
    case True
    have e: "0 \<le> (p + 1) div 4"
      using p by simp
    have "sqrtm x p = Some (Inr (X ^ nat ((p + 1) div 4) mod p))"
      unfolding start using True p e
      by (simp add: and_3_eq_mod bigint_shr_def drop_bit_eq_div powm_correct)
    moreover have "(X ^ nat ((p + 1) div 4) mod p * (X ^ nat ((p + 1) div 4) mod p)) mod p = x mod p"
      using fast_root [OF assms(1,2) True X(1,2)] by (simp add: X_def)
    ultimately show ?thesis by blast
  next
    case n3: False
    show ?thesis
    proof (cases "p mod 8 = 5")
      case True
      define t where "t = 2 * X"
      define a where "a = t ^ nat (p div 8) mod p"
      define i where "i = ((a ^ 2 mod p) * t) mod p"
      define r where "r = ((((i - 1) mod p) * X) mod p * a) mod p"
      have t0: "0 \<le> t"
        using X(3) by (simp add: t_def)
      have a0: "0 \<le> a" "0 \<le> a ^ 2 mod p" "0 \<le> i" "0 \<le> (i - 1) mod p"
        "0 \<le> (((i - 1) mod p) * X) mod p"
        using p by (simp_all add: a_def i_def)
      have e: "0 \<le> p div 8"
        using p by simp
      have pw: "powm t (bigint_shr p 3) p = Inr a"
        using p e by (simp add: bigint_shr_def drop_bit_eq_div powm_correct a_def)
      have sh: "bigint_shl X 1 = t"
        by (simp add: bigint_shl_def push_bit_eq_mult t_def)
      have b1: "bigint_rem (a ^ 2) p = a ^ 2 mod p"
        using p by (simp add: bigint_rem_nonneg)
      have b2: "bigint_rem ((a ^ 2 mod p) * t) p = i"
        unfolding i_def using p t0 a0 by (intro bigint_rem_nonneg) simp_all
      have b3: "mod_bn (i - 1) p = Inr ((i - 1) mod p)"
        using p by (simp add: mod_bn_pos)
      have b4: "bigint_rem (((i - 1) mod p) * X) p = (((i - 1) mod p) * X) mod p"
        using p X(3) a0 by (intro bigint_rem_nonneg) simp_all
      have b5: "bigint_rem ((((i - 1) mod p) * X) mod p * a) p = r"
        unfolding r_def using p a0 by (intro bigint_rem_nonneg) simp_all
      have "sqrtm x p = Some (Inr r)"
        unfolding start using True n3
        by (simp add: and_3_eq_mod and_7_eq_mod pw Let_def sh b1 b2 b3 b4 b5)
      moreover have "(r * r) mod p = X mod p"
        by (rule atkin_root [OF assms(1,2) True X(1,2) t_def a_def i_def r_def])
      ultimately show ?thesis
        by (auto simp: X_def)
    next
      case n5: False
      have s0: "0 < p - 1"
        using p by simp
      define E where "E = nat (zeroBits (p - 1))"
      from zeroBits_pos_spec [OF s0] obtain c where c: "0 < c" "odd c"
        "p - 1 = c * 2 ^ E" "bigint_shr (p - 1) (zeroBits (p - 1)) = c"
        by (auto simp: E_def)
      have zb: "zeroBits (p - 1) = int E"
        using zeroBits_nonneg [of "p - 1"] by (simp add: E_def)
      from nonresidue_exists [OF assms(1,2)] obtain a0 where a0: "2 \<le> a0" "a0 \<le> p - 1"
        "qsym a0 p = - 1"
        by auto
      then have "\<not> p dvd a0"
        using zdvd_not_zless [of a0 p] by auto
      then have "jsym a0 p = - 1"
        using a0(3) by (simp add: jsym_prime [OF assms(1)])
      from nonresidue_search_finds [OF assms(2) p(2) a0(1) this]
      obtain n where n: "nonresidue_search 2 p = Some (Inr n)" "jsym n p = - 1"
        by blast
      then have n': "\<not> p dvd n" "qsym n p = - 1"
        by (auto simp: jsym_prime [OF assms(1)] split: if_splits)
      define y where "y = X ^ nat ((c + 1) div 2) mod p"
      define b where "b = X ^ nat c mod p"
      define g where "g = n ^ nat c mod p"
      note init = tonelli_init [OF assms(1,2) c(3,2,1) X(1,2) n']
      have c1: "0 \<le> (c + 1) div 2"
        using c(1) by simp
      have pw: "powm X (bigint_shr (c + 1) 1) p = Inr y" "powm X c p = Inr b" "powm n c p = Inr g"
        using p c(1) c1
        by (simp_all add: bigint_shr_def drop_bit_eq_div powm_correct y_def b_def g_def)
      have "sqrtm x p = sqrtm_loop y b g (int E) p"
        unfolding start using n3 n5
        by (simp add: and_3_eq_mod and_7_eq_mod Let_def c(4) zb [symmetric] n(1) pw)
      moreover have "\<exists>r. sqrtm_loop y b g (int E) p = Some (Inr r) \<and> (r * r) mod p = X mod p"
      proof (rule sqrtm_loop_correct [OF assms(1) init(1)])
        show "0 \<le> y" "0 \<le> b" "b < p" "0 \<le> g"
          using p by (simp_all add: y_def b_def g_def)
        show "(y * y) mod p = (X * b) mod p"
          unfolding y_def b_def by (rule init(2))
        show "b ^ 2 ^ (E - 1) mod p = 1"
          unfolding b_def by (rule init(3))
        show "g ^ 2 ^ (E - 1) mod p = p - 1"
          unfolding g_def by (rule init(4))
      qed
      ultimately show ?thesis
        by (auto simp: X_def)
    qed
  qed
qed

text \<open>
  C3.  For an odd prime \<open>p\<close> and any integer \<open>x\<close>, \<open>sqrtm(x, p)\<close> returns (its three loops
  end): it throws \<open>X is not a square mod P.\<close> when \<open>jacobi(x, p)\<close> is \<open>-1\<close>, returns \<open>0\<close> when
  it is \<open>0\<close>, and when it is \<open>1\<close> returns an \<open>r\<close> whose square is congruent to \<open>x\<close> modulo \<open>p\<close>.
\<close>

theorem sqrtm_correct:
  assumes "is_prime p" and "odd p"
  shows "(jacobi x p = Inr (- 1) \<longrightarrow> sqrtm x p = Some (Inl (Error ''X is not a square mod P.''))) \<and>
    (jacobi x p = Inr 0 \<longrightarrow> sqrtm x p = Some (Inr 0)) \<and>
    (jacobi x p = Inr 1 \<longrightarrow> (\<exists>r. sqrtm x p = Some (Inr r) \<and> r ^ 2 mod p = x mod p))"
proof -
  have p: "0 < p"
    using assms(1) by (simp add: is_prime_def)
  have "\<exists>r. sqrtm x p = Some (Inr r) \<and> r ^ 2 mod p = x mod p" if "jacobi x p = Inr 1"
    using sqrtm_residue [OF assms that] by (simp add: power2_eq_square)
  moreover have "sqrtm x p = Some (Inl (Error ''X is not a square mod P.''))"
    if "jacobi x p = Inr (- 1)"
    using p by (simp add: sqrtm_def that)
  moreover have "sqrtm x p = Some (Inr 0)" if "jacobi x p = Inr 0"
    using p by (simp add: sqrtm_def that)
  ultimately show ?thesis by blast
qed

theorem sqrtm_correct_witness:
  "(\<exists>r. sqrtm 2 17 = Some (Inr r) \<and> r ^ 2 mod 17 = 2) \<and>
   sqrtm 3 17 = Some (Inl (Error ''X is not a square mod P.'')) \<and>
   sqrtm 34 17 = Some (Inr 0)"
proof -
  have h: "is_prime 17" "odd (17::int)"
    by (simp_all add: is_prime_def) code_simp
  have j: "jacobi 2 17 = Inr 1" "jacobi 3 17 = Inr (- 1)" "jacobi 34 17 = Inr 0"
    by code_simp+
  from sqrtm_correct [OF h, of 2] sqrtm_correct [OF h, of 3] sqrtm_correct [OF h, of 34] j
  show ?thesis by simp
qed

end
